theory Spec2Isabelle
  imports Main "HOL-Library.Word"
begin

section \<open>The tlog client of torchwood (tlogclient.go)\<close>

text \<open>
  A shallow embedding of \<^verbatim>\<open>tlogclient.go\<close>: the entry iterator \<^verbatim>\<open>Client.Entries\<close>, the preset
  cut function, the edge memory cache, the permanent cache and the retry loop of the tile
  fetcher.

  Conventions of the embedding.
  \<^item> \<^verbatim>\<open>[]byte\<close> is a list of 8-bit words; a \<^verbatim>\<open>nil\<close> slice and an empty slice are both \<open>[]\<close>
    (the source only ever takes their length).
  \<^item> the values of \<^verbatim>\<open>int64\<close>, and of \<^verbatim>\<open>int\<close>, which is taken to be 64 bits wide, are
    integers; where the source adds, subtracts or multiplies them, the result wraps around
    into the 64-bit range (\<open>add64\<close>, \<open>sub64\<close>, \<open>mul64\<close>). Go's \<^verbatim>\<open>/\<close> truncates towards zero
    and is written \<open>quot\<close>; the quotients of the file are by the tile width and do not
    overflow.
  \<^item> an \<^verbatim>\<open>error\<close> is a value: \<open>'x\<close> is the type of the errors produced outside the file (by
    the tile source, the hash reader, the cut function, the context, the operating system).
  \<^item> a run-time panic (an index out of range, the \<^verbatim>\<open>panic\<close> of \<^verbatim>\<open>tileLess\<close>) is a result of
    its own.
\<close>

type_synonym byte = "8 word"
type_synonym bytes = "byte list"

subsection \<open>Tiles\<close>

text \<open>\<^verbatim>\<open>tlog.Tile\<close>: height, level, index within the level, width.\<close>

record Tile =
  H :: int
  L :: int
  N :: int
  W :: int

text \<open>The zero value \<^verbatim>\<open>tlog.Tile{}\<close>.\<close>

definition zeroTile :: Tile where
  "zeroTile = \<lparr>H = 0, L = 0, N = 0, W = 0\<rparr>"

text \<open>
  Modelled from the spec: the constants \<^verbatim>\<open>TileHeight\<close> and \<^verbatim>\<open>TileWidth\<close> are declared in
  another file of the package; the spec fixes the tile height to 8 and the tile width to
  \<open>2^H = 256\<close> leaves.
\<close>

definition TileHeight :: int where
  "TileHeight = 8"

definition TileWidth :: int where
  "TileWidth = 2 ^ 8"

text \<open>Go's integer division, which truncates towards zero.\<close>

definition quot :: "int \<Rightarrow> int \<Rightarrow> int" where
  "quot a b = sgn a * sgn b * (\<bar>a\<bar> div \<bar>b\<bar>)"

text \<open>
  The arithmetic of \<^verbatim>\<open>int64\<close>: the result of an addition, a subtraction or a multiplication
  wraps around into the range from \<open>- 2^63\<close> to \<open>2^63 - 1\<close>.
\<close>

definition wrap64 :: "int \<Rightarrow> int" where
  "wrap64 x = (x + 2 ^ 63) mod 2 ^ 64 - 2 ^ 63"

definition add64 :: "int \<Rightarrow> int \<Rightarrow> int" where
  "add64 a b = wrap64 (a + b)"

definition sub64 :: "int \<Rightarrow> int \<Rightarrow> int" where
  "sub64 a b = wrap64 (a - b)"

definition mul64 :: "int \<Rightarrow> int \<Rightarrow> int" where
  "mul64 a b = wrap64 (a * b)"

subsection \<open>The preset cut function \<^verbatim>\<open>WithSumDBEntries\<close>\<close>

text \<open>
  \<^verbatim>\<open>bytes.Index(s, sep)\<close> of the standard library: the index of the first instance of
  \<open>sep\<close> in \<open>s\<close>, or \<open>-1\<close> if there is none.
\<close>

fun Index :: "bytes \<Rightarrow> bytes \<Rightarrow> int" where
  "Index s sep =
     (if take (length sep) s = sep then 0
      else (case s of
              [] \<Rightarrow> - 1
            | _ # s' \<Rightarrow> (let r = Index s' sep in if r < 0 then - 1 else r + 1)))"

declare Index.simps [simp del]

text \<open>The separator \<^verbatim>\<open>"\n\n"\<close>.\<close>

definition nlnl :: bytes where
  "nlnl = [10, 10]"

text \<open>
  The closure installed by \<^verbatim>\<open>WithSumDBEntries\<close>. \<open>RecordHash\<close> stands for \<^verbatim>\<open>tlog.RecordHash\<close>
  of the external tlog library. The result is \<open>Inr (entry, rh, rest)\<close>, or \<open>Inl err\<close>.
\<close>

definition WithSumDBEntries ::
  "(bytes \<Rightarrow> 'h) \<Rightarrow> bytes \<Rightarrow> 'x + (bytes \<times> 'h \<times> bytes)" where
  "WithSumDBEntries RecordHash tile =
     (let idx = Index tile nlnl;
          (entry, rest) =
            (if idx \<ge> 0 then (take (nat (idx + 1)) tile, drop (nat (idx + 2)) tile)
             else (tile, []))
      in Inr (entry, RecordHash entry, rest))"

text \<open>\<open>occurs_at sep s k\<close>: the byte string \<open>sep\<close> occurs in \<open>s\<close> at index \<open>k\<close>.\<close>

definition occurs_at :: "bytes \<Rightarrow> bytes \<Rightarrow> nat \<Rightarrow> bool" where
  "occurs_at sep s k \<longleftrightarrow> k + length sep \<le> length s \<and> take (length sep) (drop k s) = sep"

subsection \<open>The tile source interface\<close>

text \<open>
  The interface \<^verbatim>\<open>TileReaderWithContext\<close> is declared in another file of the package and is
  taken as a parameter: a tile source with a hidden state \<open>'s\<close>. \<^verbatim>\<open>ReadTiles\<close> returns the
  data of the tiles or an error; \<^verbatim>\<open>SaveTiles\<close> returns nothing.
\<close>

record ('s, 'x) TileReaderWithContext =
  ReadTiles :: "'s \<Rightarrow> Tile list \<Rightarrow> ('x + bytes list) \<times> 's"
  SaveTiles :: "'s \<Rightarrow> Tile list \<Rightarrow> bytes list \<Rightarrow> 's"

text \<open>A panic carries its message; \<open>at xs i\<close> is the slice access \<^verbatim>\<open>xs[i]\<close>.\<close>

type_synonym panic = string

definition at :: "'a list \<Rightarrow> nat \<Rightarrow> panic + 'a" where
  "at xs i = (if i < length xs then Inr (xs ! i) else Inl ''index out of range'')"

subsection \<open>The edge memory cache\<close>

record tileWithData =
  Tile :: Tile
  data :: bytes

definition zeroTileWithData :: tileWithData where
  "zeroTileWithData = \<lparr>Tile = zeroTile, data = []\<rparr>"

text \<open>
  \<^verbatim>\<open>edgeMemoryCache\<close>: the state of the inner tile source \<^verbatim>\<open>tr\<close> and the map \<^verbatim>\<open>t\<close> from a
  level to its two slots.
\<close>

type_synonym slots = "tileWithData \<times> tileWithData"

record 's edgeMemoryCache =
  cache_tr :: 's
  cache_t :: "int \<rightharpoonup> slots"

text \<open>Reading a Go map at a missing key gives the zero value.\<close>

definition lookup_slots :: "(int \<rightharpoonup> slots) \<Rightarrow> int \<Rightarrow> slots" where
  "lookup_slots m l = (case m l of None \<Rightarrow> (zeroTileWithData, zeroTileWithData) | Some td \<Rightarrow> td)"

definition tileLess :: "Tile \<Rightarrow> Tile \<Rightarrow> panic + bool" where
  "tileLess a b =
     (if a = zeroTile then Inr True
      else if b = zeroTile then Inr False
      else if L a \<noteq> L b then Inl ''different levels''
      else Inr (N a < N b \<or> (N a = N b \<and> W a < W b)))"

text \<open>Go's \<^verbatim>\<open>&&\<close>: the right operand is evaluated only if the left one is true.\<close>

definition and_also :: "panic + bool \<Rightarrow> panic + bool \<Rightarrow> panic + bool" where
  "and_also p q = (case p of Inl e \<Rightarrow> Inl e | Inr b \<Rightarrow> if b then q else Inr False)"

text \<open>
  The first loop of \<^verbatim>\<open>edgeMemoryCache.SaveTiles\<close>: the tiles that are in no slot of their
  level, with their data, to be forwarded to the inner tile source.
\<close>

fun uncached ::
  "(int \<rightharpoonup> slots) \<Rightarrow> (nat \<times> Tile) list \<Rightarrow> bytes list \<Rightarrow> panic + (Tile list \<times> bytes list)" where
  "uncached m [] xs = Inr ([], [])"
| "uncached m ((i, u) # its) xs =
     (let td = lookup_slots m (L u) in
      if Tile (fst td) = u \<or> Tile (snd td) = u then uncached m its xs
      else (case at xs i of
              Inl p \<Rightarrow> Inl p
            | Inr d \<Rightarrow> (case uncached m its xs of
                          Inl p \<Rightarrow> Inl p
                        | Inr (ts, ds) \<Rightarrow> Inr (u # ts, d # ds))))"

text \<open>One iteration of the second loop: the \<^verbatim>\<open>switch\<close> on the slots of the tile's level.\<close>

definition save_slot ::
  "(int \<rightharpoonup> slots) \<Rightarrow> nat \<Rightarrow> Tile \<Rightarrow> bytes list \<Rightarrow> panic + (int \<rightharpoonup> slots)" where
  "save_slot m i u xs =
     (case m (L u) of
        None \<Rightarrow>
          (case at xs i of
             Inl p \<Rightarrow> Inl p
           | Inr d \<Rightarrow> Inr (m(L u \<mapsto> (\<lparr>Tile = u, data = d\<rparr>, zeroTileWithData))))
      | Some td \<Rightarrow>
          if Tile (fst td) = u \<or> Tile (snd td) = u then Inr m
          else
            (case and_also (tileLess (Tile (fst td)) u)
                           (tileLess (Tile (fst td)) (Tile (snd td))) of
               Inl p \<Rightarrow> Inl p
             | Inr b0 \<Rightarrow>
                 if b0 then
                   (case at xs i of
                      Inl p \<Rightarrow> Inl p
                    | Inr d \<Rightarrow> Inr (m(L u \<mapsto> (\<lparr>Tile = u, data = d\<rparr>, snd td))))
                 else
                   (case and_also (tileLess (Tile (snd td)) u)
                                  (tileLess (Tile (snd td)) (Tile (fst td))) of
                      Inl p \<Rightarrow> Inl p
                    | Inr b1 \<Rightarrow>
                        if b1 then
                          (case at xs i of
                             Inl p \<Rightarrow> Inl p
                           | Inr d \<Rightarrow> Inr (m(L u \<mapsto> (fst td, \<lparr>Tile = u, data = d\<rparr>))))
                        else Inr m)))"

fun save_slots ::
  "(int \<rightharpoonup> slots) \<Rightarrow> (nat \<times> Tile) list \<Rightarrow> bytes list \<Rightarrow> panic + (int \<rightharpoonup> slots)" where
  "save_slots m [] xs = Inr m"
| "save_slots m ((i, u) # its) xs =
     (case save_slot m i u xs of
        Inl p \<Rightarrow> Inl p
      | Inr m' \<Rightarrow> save_slots m' its xs)"

text \<open>
  \<^verbatim>\<open>edgeMemoryCache.SaveTiles\<close>, over the inner tile source \<open>inner\<close>. The result is the cache
  after the call, or the panic that ended it.
\<close>

definition edgeMemoryCache_SaveTiles ::
  "('s, 'x) TileReaderWithContext \<Rightarrow> 's edgeMemoryCache \<Rightarrow> Tile list \<Rightarrow> bytes list
     \<Rightarrow> panic + 's edgeMemoryCache" where
  "edgeMemoryCache_SaveTiles inner c tiles xs =
     (case uncached (cache_t c) (enumerate 0 tiles) xs of
        Inl p \<Rightarrow> Inl p
      | Inr (ts, ds) \<Rightarrow>
          (let s' = SaveTiles inner (cache_tr c) ts ds in
           case save_slots (cache_t c) (enumerate 0 tiles) xs of
             Inl p \<Rightarrow> Inl p
           | Inr m' \<Rightarrow> Inr \<lparr>cache_tr = s', cache_t = m'\<rparr>))"

text \<open>
  The displacement policy in the words of the specification. \<open>desc_less\<close> is the order in
  which the zero descriptor is least and the others compare by \<open>(N, W)\<close> lexicographically;
  \<open>displace\<close> gives the two slots of a level after a descriptor with its bytes is saved.
\<close>

definition desc_less :: "Tile \<Rightarrow> Tile \<Rightarrow> bool" where
  "desc_less a b \<longleftrightarrow>
     b \<noteq> zeroTile \<and> (a = zeroTile \<or> N a < N b \<or> (N a = N b \<and> W a < W b))"

definition displace :: "slots option \<Rightarrow> Tile \<Rightarrow> bytes \<Rightarrow> slots" where
  "displace old u d =
     (case old of
        None \<Rightarrow> (\<lparr>Tile = u, data = d\<rparr>, zeroTileWithData)
      | Some (a, b) \<Rightarrow>
          if Tile a = u \<or> Tile b = u then (a, b)
          else if desc_less (Tile a) u \<and> desc_less (Tile a) (Tile b)
            then (\<lparr>Tile = u, data = d\<rparr>, b)
          else if desc_less (Tile b) u \<and> desc_less (Tile b) (Tile a)
            then (a, \<lparr>Tile = u, data = d\<rparr>)
          else (a, b))"

text \<open>The map of the cache after a descriptor with its bytes is saved by that policy.\<close>

definition save_policy :: "(int \<rightharpoonup> slots) \<Rightarrow> Tile \<times> bytes \<Rightarrow> (int \<rightharpoonup> slots)" where
  "save_policy m ud = m(L (fst ud) \<mapsto> displace (m (L (fst ud))) (fst ud) (snd ud))"

text \<open>
  The invariant of the map of the cache: the two slots of a level never both hold the zero
  descriptor, and a slot of level \<open>l\<close> holds the zero descriptor or one of level \<open>l\<close>.
\<close>

definition edge_inv :: "(int \<rightharpoonup> slots) \<Rightarrow> bool" where
  "edge_inv m \<longleftrightarrow>
     (\<forall>l a b. m l = Some (a, b) \<longrightarrow>
        \<not> (Tile a = zeroTile \<and> Tile b = zeroTile) \<and>
        (Tile a \<noteq> zeroTile \<longrightarrow> L (Tile a) = l) \<and>
        (Tile b \<noteq> zeroTile \<longrightarrow> L (Tile b) = l))"

subsection \<open>The permanent cache\<close>

text \<open>
  The operating system as \<^verbatim>\<open>PermanentCache\<close> uses it: a file system with a hidden state
  \<open>'fs\<close> and the functions \<^verbatim>\<open>os.Stat\<close> (only its error is used), \<^verbatim>\<open>os.MkdirAll\<close>,
  \<^verbatim>\<open>os.WriteFile\<close>, \<^verbatim>\<open>os.ReadFile\<close>, \<^verbatim>\<open>filepath.Join\<close> and \<^verbatim>\<open>filepath.Dir\<close>. An error
  result \<open>None\<close> is Go's \<^verbatim>\<open>nil\<close>.
\<close>

record ('fs, 'x) OS =
  Stat :: "'fs \<Rightarrow> string \<Rightarrow> 'x option"
  MkdirAll :: "'fs \<Rightarrow> string \<Rightarrow> 'x option \<times> 'fs"
  WriteFile :: "'fs \<Rightarrow> string \<Rightarrow> bytes \<Rightarrow> 'x option \<times> 'fs"
  ReadFile :: "'fs \<Rightarrow> string \<Rightarrow> 'x + bytes"
  Join :: "string \<Rightarrow> string \<Rightarrow> string"
  Dir :: "string \<Rightarrow> string"

text \<open>The calls that change the file system, in the order in which they are made.\<close>

datatype oscall = CallMkdirAll string | CallWriteFile string bytes

text \<open>The records handed to the logger \<^verbatim>\<open>c.log\<close>.\<close>

datatype 'x logrec =
    UnexpectedTileHeight Tile
  | FailedToCreateDirectory string 'x
  | FailedToWriteFile string 'x
  | SavedTileToCache string nat

text \<open>
  \<^verbatim>\<open>PermanentCache\<close>: the state of the inner tile source \<^verbatim>\<open>tr\<close>, the directory \<^verbatim>\<open>dir\<close>, the
  function \<^verbatim>\<open>tilePath\<close>, and what has been handed to \<^verbatim>\<open>log\<close> so far.
\<close>

record ('s, 'x) PermanentCache =
  pc_tr :: 's
  pc_dir :: string
  pc_tilePath :: "Tile \<Rightarrow> string"
  pc_log :: "'x logrec list"

text \<open>
  How an iteration of the loop of \<^verbatim>\<open>SaveTiles\<close> ends: it goes on to the next tile, it
  returns from \<^verbatim>\<open>SaveTiles\<close>, or it panics. The state is the cache, the file system and the
  calls made so far.
\<close>

datatype 'a step = Next 'a | Return 'a | Panicked panic

type_synonym ('s, 'fs, 'x) pc_state = "('s, 'x) PermanentCache \<times> 'fs \<times> oscall list"

definition pc_logs :: "('s, 'x) PermanentCache \<Rightarrow> 'x logrec \<Rightarrow> ('s, 'x) PermanentCache" where
  "pc_logs c r = c\<lparr>pc_log := pc_log c @ [r]\<rparr>"

text \<open>The body of the loop of \<^verbatim>\<open>PermanentCache.SaveTiles\<close> for the tile \<open>u\<close> at index \<open>i\<close>.\<close>

definition save_tile ::
  "('fs, 'x) OS \<Rightarrow> ('s, 'fs, 'x) pc_state \<Rightarrow> nat \<Rightarrow> Tile \<Rightarrow> bytes list
     \<Rightarrow> ('s, 'fs, 'x) pc_state step" where
  "save_tile os st i u xs =
     (case st of (c, f, calls) \<Rightarrow>
        if H u \<noteq> TileHeight then Next (pc_logs c (UnexpectedTileHeight u), f, calls)
        else if W u \<noteq> TileWidth then Next (c, f, calls)
        else
          (let path = Join os (pc_dir c) (pc_tilePath c u) in
           case Stat os f path of
             None \<Rightarrow> Next (c, f, calls)
           | Some _ \<Rightarrow>
               (case MkdirAll os f (Dir os path) of
                  (Some e, f1) \<Rightarrow>
                    Return (pc_logs c (FailedToCreateDirectory path e), f1,
                            calls @ [CallMkdirAll (Dir os path)])
                | (None, f1) \<Rightarrow>
                    (case at xs i of
                       Inl p \<Rightarrow> Panicked p
                     | Inr d \<Rightarrow>
                         (case WriteFile os f1 path d of
                            (Some e, f2) \<Rightarrow>
                              Next (pc_logs c (FailedToWriteFile path e), f2,
                                    calls @ [CallMkdirAll (Dir os path), CallWriteFile path d])
                          | (None, f2) \<Rightarrow>
                              Next (pc_logs c (SavedTileToCache (pc_tilePath c u) (length d)), f2,
                                    calls @ [CallMkdirAll (Dir os path), CallWriteFile path d]))))))"

fun save_loop ::
  "('fs, 'x) OS \<Rightarrow> ('s, 'fs, 'x) pc_state \<Rightarrow> (nat \<times> Tile) list \<Rightarrow> bytes list
     \<Rightarrow> ('s, 'fs, 'x) pc_state step" where
  "save_loop os st [] xs = Next st"
| "save_loop os st ((i, u) # its) xs =
     (case save_tile os st i u xs of
        Next st' \<Rightarrow> save_loop os st' its xs
      | Return st' \<Rightarrow> Return st'
      | Panicked p \<Rightarrow> Panicked p)"

text \<open>
  \<^verbatim>\<open>PermanentCache.SaveTiles\<close> over the inner tile source \<open>inner\<close>: the cache and the file
  system after the call with the calls it made to the file system, or the panic that ended it.
\<close>

definition PermanentCache_SaveTiles ::
  "('fs, 'x) OS \<Rightarrow> ('s, 'y) TileReaderWithContext \<Rightarrow> ('s, 'x) PermanentCache \<Rightarrow> 'fs
     \<Rightarrow> Tile list \<Rightarrow> bytes list \<Rightarrow> panic + ('s, 'fs, 'x) pc_state" where
  "PermanentCache_SaveTiles os inner c f tiles xs =
     (case save_loop os (c, f, []) (enumerate 0 tiles) xs of
        Next (c', f', calls) \<Rightarrow>
          Inr (c'\<lparr>pc_tr := SaveTiles inner (pc_tr c') tiles xs\<rparr>, f', calls)
      | Return st' \<Rightarrow> Inr st'
      | Panicked p \<Rightarrow> Inl p)"

text \<open>A sequence of calls of \<^verbatim>\<open>SaveTiles\<close> on the same cache; the calls made are collected.\<close>

fun SaveTiles_calls ::
  "('fs, 'x) OS \<Rightarrow> ('s, 'y) TileReaderWithContext \<Rightarrow> ('s, 'fs, 'x) pc_state
     \<Rightarrow> (Tile list \<times> bytes list) list \<Rightarrow> panic + ('s, 'fs, 'x) pc_state" where
  "SaveTiles_calls os inner st [] = Inr st"
| "SaveTiles_calls os inner (c, f, calls) ((tiles, xs) # bs) =
     (case PermanentCache_SaveTiles os inner c f tiles xs of
        Inl p \<Rightarrow> Inl p
      | Inr (c', f', calls') \<Rightarrow> SaveTiles_calls os inner (c', f', calls @ calls') bs)"

text \<open>
  The file system after the calls \<open>cs\<close>, made in this order on the file system \<open>f\<close>. The
  calls recorded by \<open>save_tile\<close> are all the calls that change the file system, so that the
  file system at the time of the \<open>k\<close>-th recorded call is \<open>replay os f (take k cs)\<close>.
\<close>

fun replay :: "('fs, 'x) OS \<Rightarrow> 'fs \<Rightarrow> oscall list \<Rightarrow> 'fs" where
  "replay os f [] = f"
| "replay os f (CallMkdirAll q # cs) = replay os (snd (MkdirAll os f q)) cs"
| "replay os f (CallWriteFile p d # cs) = replay os (snd (WriteFile os f p d)) cs"

text \<open>Every \<^verbatim>\<open>os.WriteFile\<close> among the calls \<open>cs\<close> is at a path that does not exist when it is made.\<close>

fun fresh_writes :: "('fs, 'x) OS \<Rightarrow> 'fs \<Rightarrow> oscall list \<Rightarrow> bool" where
  "fresh_writes os f [] = True"
| "fresh_writes os f (CallMkdirAll q # cs) = fresh_writes os (snd (MkdirAll os f q)) cs"
| "fresh_writes os f (CallWriteFile p d # cs) =
     (Stat os f p \<noteq> None \<and> fresh_writes os (snd (WriteFile os f p d)) cs)"

text \<open>
  What is assumed of the file system: creating directories leaves every existing path in
  place with its content, and so does writing a file at another path; creating the directory
  of a path that does not exist does not create the path; and after a write that returned no
  error the path exists and holds the bytes written.
\<close>

definition frame :: "('fs, 'x) OS \<Rightarrow> bool" where
  "frame os \<longleftrightarrow>
     (\<forall>f q r f' p. MkdirAll os f q = (r, f') \<and> Stat os f p = None \<longrightarrow>
        Stat os f' p = None \<and> ReadFile os f' p = ReadFile os f p) \<and>
     (\<forall>f q d r f' p. WriteFile os f q d = (r, f') \<and> Stat os f p = None \<and> p \<noteq> q \<longrightarrow>
        Stat os f' p = None \<and> ReadFile os f' p = ReadFile os f p) \<and>
     (\<forall>f p r f'. MkdirAll os f (Dir os p) = (r, f') \<and> Stat os f p \<noteq> None \<longrightarrow>
        Stat os f' p \<noteq> None) \<and>
     (\<forall>f p d f'. WriteFile os f p d = (None, f') \<longrightarrow>
        Stat os f' p = None \<and> ReadFile os f' p = Inr d)"

text \<open>
  A small file system for the examples: the files are an association list, a path exists
  when it has a file, \<open>mk\<close> is the error of every \<^verbatim>\<open>MkdirAll\<close> and \<open>wr\<close> that of every
  \<^verbatim>\<open>WriteFile\<close>.
\<close>

definition list_os :: "string option \<Rightarrow> string option \<Rightarrow> ((string \<times> bytes) list, string) OS" where
  "list_os mk wr =
     \<lparr>Stat = (\<lambda>f p. case map_of f p of None \<Rightarrow> Some ''not exist'' | Some _ \<Rightarrow> None),
      MkdirAll = (\<lambda>f p. (mk, f)),
      WriteFile = (\<lambda>f p d. case wr of None \<Rightarrow> (None, (p, d) # f) | Some e \<Rightarrow> (Some e, f)),
      ReadFile = (\<lambda>f p. case map_of f p of None \<Rightarrow> Inl ''not exist'' | Some d \<Rightarrow> Inr d),
      Join = (\<lambda>a b. a @ ''/'' @ b),
      Dir = (\<lambda>p. rev (tl (dropWhile (\<lambda>ch. ch \<noteq> CHR ''/'') (rev p))))\<rparr>"

text \<open>An inner tile source for the examples: its state is the list of the calls of \<^verbatim>\<open>SaveTiles\<close>.\<close>

definition recording_source :: "((Tile list \<times> bytes list) list, string) TileReaderWithContext" where
  "recording_source =
     \<lparr>ReadTiles = (\<lambda>s ts. (Inl ''no tiles'', s)), SaveTiles = (\<lambda>s ts ds. s @ [(ts, ds)])\<rparr>"

subsection \<open>The tile fetcher\<close>




















subsection \<open>The client and its entry iterator\<close>

text \<open>
  \<^verbatim>\<open>Client\<close>: the state of the tile reader \<^verbatim>\<open>tr\<close>, the function \<^verbatim>\<open>cut\<close> and the stashed
  error \<^verbatim>\<open>err\<close> (\<open>None\<close> is \<^verbatim>\<open>nil\<close>). The field \<^verbatim>\<open>timeout\<close> only sets the deadlines of the
  contexts, whose errors are given by \<open>ctxErr\<close> below. The errors stored in \<^verbatim>\<open>err\<close> are those
  of the tile reader, of the hash reader and of the context, passed on as they are, and the
  four made with \<^verbatim>\<open>fmt.Errorf\<close>, with the number they print.
\<close>

datatype 'x error =
    TileReadFailed 'x
  | HashReadFailed 'x
  | ContextDone 'x
  | EndOfTileData int
  | CutFailed int 'x
  | HashMismatch int
  | LeftoverData int

record ('s, 'x, 'h) Client =
  c_tr :: 's
  c_cut :: "bytes \<Rightarrow> 'x + (bytes \<times> 'h \<times> bytes)"
  c_err :: "'x error option"

text \<open>\<^verbatim>\<open>Client.Err\<close>.\<close>

definition Err :: "('s, 'x, 'h) Client \<Rightarrow> 'x error option" where
  "Err c = c_err c"

text \<open>\<^verbatim>\<open>tlog.Tree\<close>: the size of the tree and its root hash.\<close>

record 'h Tree =
  tree_N :: int
  tree_Hash :: 'h

text \<open>
  What a run of the iterator meets, besides the client: the methods of the tile reader
  \<^verbatim>\<open>c.tr\<close>; \<open>ReadHashes s tree indexes\<close> for
  \<^verbatim>\<open>TileHashReaderWithContext(ctx, tree, c.tr).ReadHashes(indexes)\<close>, which reads and saves tiles
  through \<^verbatim>\<open>c.tr\<close> and so works on its state; \<^verbatim>\<open>tlog.StoredHashIndex\<close> of the external tlog
  library; \<open>ctxErr k\<close>, the result of the \<open>k\<close>-th evaluation of \<^verbatim>\<open>ctx.Err()\<close> in the run; and
  the consumer \<open>yield\<close>, which is handed the pairs yielded so far, the last one being the
  current one, and answers whether the iteration goes on.
\<close>

record ('s, 'x, 'h) world =
  reader :: "('s, 'x) TileReaderWithContext"
  ReadHashes :: "'s \<Rightarrow> 'h Tree \<Rightarrow> int list \<Rightarrow> ('x + 'h list) \<times> 's"
  StoredHashIndex :: "int \<Rightarrow> int \<Rightarrow> int"
  ctxErr :: "nat \<Rightarrow> 'x option"
  yield :: "(int \<times> bytes) list \<Rightarrow> bool"

text \<open>
  The state of a run: the state of the tile reader, the number of evaluations of
  \<^verbatim>\<open>ctx.Err()\<close> so far, the variable \<^verbatim>\<open>start\<close> (which the loop assigns), the pairs yielded so
  far, and the arguments of the calls of \<^verbatim>\<open>c.cut\<close> so far, both oldest first.
\<close>

record 's iter =
  it_src :: 's
  it_polls :: nat
  it_start :: int
  it_yielded :: "(int \<times> bytes) list"
  it_cuts :: "bytes list"

text \<open>
  How the iterator function ends: it returns, after storing an error in \<^verbatim>\<open>c.err\<close> or not,
  or it panics. A part of the function gives \<open>Inl\<close> of that when it ends the function and
  \<open>Inr\<close> of its result when the function goes on.
\<close>

datatype 'x exit = Returns "'x error option" | Panics panic

definition at_int :: "'a list \<Rightarrow> int \<Rightarrow> panic + 'a" where
  "at_int xs k = (if 0 \<le> k \<and> k < int (length xs) then Inr (xs ! nat k)
                  else Inl ''index out of range'')"

definition poll :: "('s, 'x, 'h) world \<Rightarrow> 's iter \<Rightarrow> 'x option \<times> 's iter" where
  "poll w st = (ctxErr w (it_polls st), st\<lparr>it_polls := Suc (it_polls st)\<rparr>)"

text \<open>
  The body of the loop \<^verbatim>\<open>for i := tileStart; i < tileEnd; i++\<close> for the entry \<open>i\<close> of the tile
  number \<open>tN\<close>, with the rest \<open>d\<close> of the data of the tile.
\<close>

definition entry_step ::
  "('s, 'x, 'h) world \<Rightarrow> ('s, 'x, 'h) Client \<Rightarrow> 'h list \<Rightarrow> int \<Rightarrow> int \<Rightarrow> int \<Rightarrow> bytes
     \<Rightarrow> 's iter \<Rightarrow> ('x exit + bytes) \<times> 's iter" where
  "entry_step w c hashes base tN i d st =
     (case poll w st of
        (Some e, st1) \<Rightarrow> (Inl (Returns (Some (ContextDone e))), st1)
      | (None, st1) \<Rightarrow>
          if length d = 0 then (Inl (Returns (Some (EndOfTileData tN))), st1)
          else
            (let st2 = st1\<lparr>it_cuts := it_cuts st1 @ [d]\<rparr> in
             case c_cut c d of
               Inl e \<Rightarrow> (Inl (Returns (Some (CutFailed i e))), st2)
             | Inr (entry, rh, rest) \<Rightarrow>
                 (case at_int hashes (sub64 i base) of
                    Inl p \<Rightarrow> (Inl (Panics p), st2)
                  | Inr h \<Rightarrow>
                      if rh \<noteq> h then (Inl (Returns (Some (HashMismatch i))), st2)
                      else if i < it_start st2 then (Inr rest, st2)
                      else
                        (let st3 = st2\<lparr>it_yielded := it_yielded st2 @ [(i, entry)]\<rparr> in
                         if yield w (it_yielded st3) then (Inr rest, st3)
                         else (Inl (Returns None), st3)))))"

text \<open>
  The loop over the entries of a tile, over the values of \<open>i\<close> still to come: \<open>i\<close> stays
  below \<^verbatim>\<open>tileEnd\<close>, so that \<^verbatim>\<open>i++\<close> does not wrap around.
\<close>

fun entries_loop ::
  "('s, 'x, 'h) world \<Rightarrow> ('s, 'x, 'h) Client \<Rightarrow> 'h list \<Rightarrow> int \<Rightarrow> int \<Rightarrow> int list \<Rightarrow> bytes
     \<Rightarrow> 's iter \<Rightarrow> ('x exit + bytes) \<times> 's iter" where
  "entries_loop w c hashes base tN [] d st = (Inr d, st)"
| "entries_loop w c hashes base tN (i # is) d st =
     (case entry_step w c hashes base tN i d st of
        (Inl ex, st') \<Rightarrow> (Inl ex, st')
      | (Inr rest, st') \<Rightarrow> entries_loop w c hashes base tN is rest st')"

text \<open>The body of the loop \<^verbatim>\<open>for ti, t := range tiles\<close>.\<close>

definition tile_step ::
  "('s, 'x, 'h) world \<Rightarrow> ('s, 'x, 'h) Client \<Rightarrow> 'h list \<Rightarrow> int \<Rightarrow> bytes list \<Rightarrow> nat \<Rightarrow> Tile
     \<Rightarrow> 's iter \<Rightarrow> ('x exit + unit) \<times> 's iter" where
  "tile_step w c hashes base tdata ti u st =
     (let tileStart = mul64 (N u) TileWidth;
          tileEnd = add64 tileStart (W u)
      in case at tdata ti of
           Inl p \<Rightarrow> (Inl (Panics p), st)
         | Inr d \<Rightarrow>
             (case entries_loop w c hashes base (N u) [tileStart..tileEnd - 1] d st of
                (Inl ex, st') \<Rightarrow> (Inl ex, st')
              | (Inr d', st') \<Rightarrow>
                  if length d' \<noteq> 0 then (Inl (Returns (Some (LeftoverData (N u)))), st')
                  else (Inr (), st'\<lparr>it_start := tileEnd\<rparr>)))"

fun tiles_loop ::
  "('s, 'x, 'h) world \<Rightarrow> ('s, 'x, 'h) Client \<Rightarrow> 'h list \<Rightarrow> int \<Rightarrow> bytes list
     \<Rightarrow> (nat \<times> Tile) list \<Rightarrow> 's iter \<Rightarrow> ('x exit + unit) \<times> 's iter" where
  "tiles_loop w c hashes base tdata [] st = (Inr (), st)"
| "tiles_loop w c hashes base tdata ((ti, u) # its) st =
     (case tile_step w c hashes base tdata ti u st of
        (Inl ex, st') \<Rightarrow> (Inl ex, st')
      | (Inr _, st') \<Rightarrow> tiles_loop w c hashes base tdata its st')"

text \<open>The loop \<^verbatim>\<open>for i := 0; i < 50; i++\<close> that makes the tiles of a batch.\<close>

fun batch_tiles :: "int \<Rightarrow> int \<Rightarrow> nat list \<Rightarrow> Tile list" where
  "batch_tiles base top' [] = []"
| "batch_tiles base top' (i # is) =
     (let tileStart = add64 base (mul64 (int i) TileWidth) in
      if tileStart \<ge> top' then []
      else
        (let tileEnd = add64 tileStart TileWidth;
             tileEnd = (if tileEnd > top' then top' else tileEnd)
         in \<lparr>H = TileHeight, L = - 1, N = quot tileStart TileWidth, W = sub64 tileEnd tileStart\<rparr>
              # batch_tiles base top' is))"

text \<open>The stored hash indexes of the leaves of the tiles of a batch.\<close>

definition batch_indexes :: "('s, 'x, 'h) world \<Rightarrow> Tile list \<Rightarrow> int list" where
  "batch_indexes w tiles =
     concat (map (\<lambda>u. map (\<lambda>i. StoredHashIndex w 0 (add64 (mul64 (N u) TileWidth) (int i)))
                          [0..<nat (W u)])
                 tiles)"

definition batch_top :: "'h Tree \<Rightarrow> int \<Rightarrow> int" where
  "batch_top tree base =
     (let top' = mul64 (quot (tree_N tree) TileWidth) TileWidth in
      if sub64 top' base = 0 then tree_N tree else top')"

text \<open>
  One turn of the outer loop \<^verbatim>\<open>for { ... }\<close>, up to and including \<^verbatim>\<open>c.tr.SaveTiles\<close>: the
  function ends, or the turn gives the value of \<^verbatim>\<open>top\<close>.
\<close>

definition Entries_batch ::
  "('s, 'x, 'h) world \<Rightarrow> ('s, 'x, 'h) Client \<Rightarrow> 'h Tree \<Rightarrow> 's iter
     \<Rightarrow> ('x exit + int) \<times> 's iter" where
  "Entries_batch w c tree st =
     (case poll w st of
        (Some e, st1) \<Rightarrow> (Inl (Returns (Some (ContextDone e))), st1)
      | (None, st1) \<Rightarrow>
          (let base = mul64 (quot (it_start st1) TileWidth) TileWidth;
               top' = batch_top tree base;
               tiles = batch_tiles base top' [0..<50]
           in if length tiles = 0 then (Inl (Returns None), st1)
              else
                (case ReadTiles (reader w) (it_src st1) tiles of
                   (Inl e, s1) \<Rightarrow> (Inl (Returns (Some (TileReadFailed e))), st1\<lparr>it_src := s1\<rparr>)
                 | (Inr tdata, s1) \<Rightarrow>
                     (case ReadHashes w s1 tree (batch_indexes w tiles) of
                        (Inl e, s2) \<Rightarrow>
                          (Inl (Returns (Some (HashReadFailed e))), st1\<lparr>it_src := s2\<rparr>)
                      | (Inr hashes, s2) \<Rightarrow>
                          (case tiles_loop w c hashes base tdata (enumerate 0 tiles)
                                  (st1\<lparr>it_src := s2\<rparr>) of
                             (Inl ex, st2) \<Rightarrow> (Inl ex, st2)
                           | (Inr _, st2) \<Rightarrow>
                               (Inr top',
                                st2\<lparr>it_src := SaveTiles (reader w) (it_src st2) tiles tdata\<rparr>))))))"

text \<open>
  The outer loop, which goes on until \<^verbatim>\<open>start == top\<close> or the function ends, for at most
  \<open>n\<close> turns: the result is how the function ended, or \<open>None\<close> when it is still running after
  \<open>n\<close> turns, with the state reached.
\<close>

fun Entries_loop ::
  "('s, 'x, 'h) world \<Rightarrow> ('s, 'x, 'h) Client \<Rightarrow> 'h Tree \<Rightarrow> nat \<Rightarrow> 's iter
     \<Rightarrow> 'x exit option \<times> 's iter" where
  "Entries_loop w c tree 0 st = (None, st)"
| "Entries_loop w c tree (Suc n) st =
     (case Entries_batch w c tree st of
        (Inl ex, st') \<Rightarrow> (Some ex, st')
      | (Inr top', st') \<Rightarrow>
          if it_start st' = top' then (Some (Returns None), st')
          else Entries_loop w c tree n st')"

text \<open>
  \<^verbatim>\<open>Client.Entries\<close>. The call sets \<^verbatim>\<open>c.err\<close> to \<^verbatim>\<open>nil\<close> and returns the iterator;
  \<open>Entries_iterate\<close> is a run of that iterator from the client state \<open>c\<close>, for at most \<open>n\<close>
  turns of its outer loop, which gives how it ended (\<open>None\<close> when it has not ended), the client
  afterwards and the state of the run. \<open>Entries\<close> is the call followed by one run.
\<close>

definition Entries_call :: "('s, 'x, 'h) Client \<Rightarrow> ('s, 'x, 'h) Client" where
  "Entries_call c = c\<lparr>c_err := None\<rparr>"

definition Entries_iterate ::
  "('s, 'x, 'h) world \<Rightarrow> ('s, 'x, 'h) Client \<Rightarrow> 'h Tree \<Rightarrow> int \<Rightarrow> nat
     \<Rightarrow> 'x exit option \<times> ('s, 'x, 'h) Client \<times> 's iter" where
  "Entries_iterate w c tree start n =
     (case Entries_loop w c tree n
             \<lparr>it_src = c_tr c, it_polls = 0, it_start = start, it_yielded = [], it_cuts = []\<rparr> of
        (ex, st) \<Rightarrow>
          (ex,
           (case ex of
              Some (Returns (Some e)) \<Rightarrow> c\<lparr>c_tr := it_src st, c_err := Some e\<rparr>
            | _ \<Rightarrow> c\<lparr>c_tr := it_src st\<rparr>),
           st))"

definition Entries ::
  "('s, 'x, 'h) world \<Rightarrow> ('s, 'x, 'h) Client \<Rightarrow> 'h Tree \<Rightarrow> int \<Rightarrow> nat
     \<Rightarrow> 'x exit option \<times> ('s, 'x, 'h) Client \<times> 's iter" where
  "Entries w c tree start n = Entries_iterate w (Entries_call c) tree start n"

text \<open>
  A world for the examples. The tile reader is stateless and gives, for a tile of width
  \<open>W\<close>, the \<open>W\<close> one-byte entries \<open>97 + (N * TileWidth + k) mod 7\<close>, each followed by two
  newlines; the hash reader gives for a stored hash index the record hash of that entry;
  the stored hash index of leaf \<open>n\<close> is taken to be \<open>n\<close>; the record hash of an entry is the
  entry; the context is never done and the consumer takes every entry.
\<close>

definition example_tile :: "Tile \<Rightarrow> bytes" where
  "example_tile u =
     concat (map (\<lambda>k. [word_of_int (97 + (N u * TileWidth + int k) mod 7), 10, 10]) [0..<nat (W u)])"

definition example_world :: "(unit, string, bytes) world" where
  "example_world =
     \<lparr>reader = \<lparr>ReadTiles = (\<lambda>s ts. (Inr (map example_tile ts), s)),
                 SaveTiles = (\<lambda>s ts ds. s)\<rparr>,
      ReadHashes = (\<lambda>s tree idxs. (Inr (map (\<lambda>n. [word_of_int (97 + n mod 7), 10]) idxs), s)),
      StoredHashIndex = (\<lambda>l n. n),
      ctxErr = (\<lambda>k. None),
      yield = (\<lambda>ys. True)\<rparr>"

definition example_client :: "(unit, string, bytes) Client" where
  "example_client = \<lparr>c_tr = (), c_cut = WithSumDBEntries (\<lambda>e. e), c_err = None\<rparr>"

subsection \<open>The entry iterator over the integers\<close>

text \<open>
  The same functions with the arithmetic of the integers in place of that of \<^verbatim>\<open>int64\<close>, and
  the outer loop as a recursion that is proved to end. They are the functions above as long
  as nothing wraps around, which is so for \<open>0 \<le> start \<le> tree.N < 2^63 - 51 * TileWidth\<close>
  (proved below); the proofs about the iterator are made on them.
\<close>

text \<open>
  The body of the loop \<^verbatim>\<open>for i := tileStart; i < tileEnd; i++\<close> for the entry \<open>i\<close> of the tile
  number \<open>tN\<close>, with the rest \<open>d\<close> of the data of the tile.
\<close>

definition entry_step_Z ::
  "('s, 'x, 'h) world \<Rightarrow> ('s, 'x, 'h) Client \<Rightarrow> 'h list \<Rightarrow> int \<Rightarrow> int \<Rightarrow> int \<Rightarrow> bytes
     \<Rightarrow> 's iter \<Rightarrow> ('x exit + bytes) \<times> 's iter" where
  "entry_step_Z w c hashes base tN i d st =
     (case poll w st of
        (Some e, st1) \<Rightarrow> (Inl (Returns (Some (ContextDone e))), st1)
      | (None, st1) \<Rightarrow>
          if length d = 0 then (Inl (Returns (Some (EndOfTileData tN))), st1)
          else
            (let st2 = st1\<lparr>it_cuts := it_cuts st1 @ [d]\<rparr> in
             case c_cut c d of
               Inl e \<Rightarrow> (Inl (Returns (Some (CutFailed i e))), st2)
             | Inr (entry, rh, rest) \<Rightarrow>
                 (case at_int hashes (i - base) of
                    Inl p \<Rightarrow> (Inl (Panics p), st2)
                  | Inr h \<Rightarrow>
                      if rh \<noteq> h then (Inl (Returns (Some (HashMismatch i))), st2)
                      else if i < it_start st2 then (Inr rest, st2)
                      else
                        (let st3 = st2\<lparr>it_yielded := it_yielded st2 @ [(i, entry)]\<rparr> in
                         if yield w (it_yielded st3) then (Inr rest, st3)
                         else (Inl (Returns None), st3)))))"

fun entries_loop_Z ::
  "('s, 'x, 'h) world \<Rightarrow> ('s, 'x, 'h) Client \<Rightarrow> 'h list \<Rightarrow> int \<Rightarrow> int \<Rightarrow> int list \<Rightarrow> bytes
     \<Rightarrow> 's iter \<Rightarrow> ('x exit + bytes) \<times> 's iter" where
  "entries_loop_Z w c hashes base tN [] d st = (Inr d, st)"
| "entries_loop_Z w c hashes base tN (i # is) d st =
     (case entry_step_Z w c hashes base tN i d st of
        (Inl ex, st') \<Rightarrow> (Inl ex, st')
      | (Inr rest, st') \<Rightarrow> entries_loop_Z w c hashes base tN is rest st')"

text \<open>The body of the loop \<^verbatim>\<open>for ti, t := range tiles\<close>.\<close>

definition tile_step_Z ::
  "('s, 'x, 'h) world \<Rightarrow> ('s, 'x, 'h) Client \<Rightarrow> 'h list \<Rightarrow> int \<Rightarrow> bytes list \<Rightarrow> nat \<Rightarrow> Tile
     \<Rightarrow> 's iter \<Rightarrow> ('x exit + unit) \<times> 's iter" where
  "tile_step_Z w c hashes base tdata ti u st =
     (let tileStart = N u * TileWidth;
          tileEnd = tileStart + W u
      in case at tdata ti of
           Inl p \<Rightarrow> (Inl (Panics p), st)
         | Inr d \<Rightarrow>
             (case entries_loop_Z w c hashes base (N u) [tileStart..tileEnd - 1] d st of
                (Inl ex, st') \<Rightarrow> (Inl ex, st')
              | (Inr d', st') \<Rightarrow>
                  if length d' \<noteq> 0 then (Inl (Returns (Some (LeftoverData (N u)))), st')
                  else (Inr (), st'\<lparr>it_start := tileEnd\<rparr>)))"

fun tiles_loop_Z ::
  "('s, 'x, 'h) world \<Rightarrow> ('s, 'x, 'h) Client \<Rightarrow> 'h list \<Rightarrow> int \<Rightarrow> bytes list
     \<Rightarrow> (nat \<times> Tile) list \<Rightarrow> 's iter \<Rightarrow> ('x exit + unit) \<times> 's iter" where
  "tiles_loop_Z w c hashes base tdata [] st = (Inr (), st)"
| "tiles_loop_Z w c hashes base tdata ((ti, u) # its) st =
     (case tile_step_Z w c hashes base tdata ti u st of
        (Inl ex, st') \<Rightarrow> (Inl ex, st')
      | (Inr _, st') \<Rightarrow> tiles_loop_Z w c hashes base tdata its st')"

text \<open>The loop \<^verbatim>\<open>for i := 0; i < 50; i++\<close> that makes the tiles of a batch.\<close>

fun batch_tiles_Z :: "int \<Rightarrow> int \<Rightarrow> nat list \<Rightarrow> Tile list" where
  "batch_tiles_Z base top' [] = []"
| "batch_tiles_Z base top' (i # is) =
     (let tileStart = base + int i * TileWidth in
      if tileStart \<ge> top' then []
      else
        (let tileEnd = tileStart + TileWidth;
             tileEnd = (if tileEnd > top' then top' else tileEnd)
         in \<lparr>H = TileHeight, L = - 1, N = quot tileStart TileWidth, W = tileEnd - tileStart\<rparr>
              # batch_tiles_Z base top' is))"

text \<open>The stored hash indexes of the leaves of the tiles of a batch.\<close>

definition batch_indexes_Z :: "('s, 'x, 'h) world \<Rightarrow> Tile list \<Rightarrow> int list" where
  "batch_indexes_Z w tiles =
     concat (map (\<lambda>u. map (\<lambda>i. StoredHashIndex w 0 (N u * TileWidth + int i)) [0..<nat (W u)])
                 tiles)"

definition batch_top_Z :: "'h Tree \<Rightarrow> int \<Rightarrow> int" where
  "batch_top_Z tree base =
     (let top' = quot (tree_N tree) TileWidth * TileWidth in
      if top' - base = 0 then tree_N tree else top')"

text \<open>
  One turn of the outer loop \<^verbatim>\<open>for { ... }\<close>, up to and including \<^verbatim>\<open>c.tr.SaveTiles\<close>: the
  function ends, or the turn gives the value of \<^verbatim>\<open>top\<close>.
\<close>

definition Entries_batch_Z ::
  "('s, 'x, 'h) world \<Rightarrow> ('s, 'x, 'h) Client \<Rightarrow> 'h Tree \<Rightarrow> 's iter
     \<Rightarrow> ('x exit + int) \<times> 's iter" where
  "Entries_batch_Z w c tree st =
     (case poll w st of
        (Some e, st1) \<Rightarrow> (Inl (Returns (Some (ContextDone e))), st1)
      | (None, st1) \<Rightarrow>
          (let base = quot (it_start st1) TileWidth * TileWidth;
               top' = batch_top_Z tree base;
               tiles = batch_tiles_Z base top' [0..<50]
           in if length tiles = 0 then (Inl (Returns None), st1)
              else
                (case ReadTiles (reader w) (it_src st1) tiles of
                   (Inl e, s1) \<Rightarrow> (Inl (Returns (Some (TileReadFailed e))), st1\<lparr>it_src := s1\<rparr>)
                 | (Inr tdata, s1) \<Rightarrow>
                     (case ReadHashes w s1 tree (batch_indexes_Z w tiles) of
                        (Inl e, s2) \<Rightarrow>
                          (Inl (Returns (Some (HashReadFailed e))), st1\<lparr>it_src := s2\<rparr>)
                      | (Inr hashes, s2) \<Rightarrow>
                          (case tiles_loop_Z w c hashes base tdata (enumerate 0 tiles)
                                  (st1\<lparr>it_src := s2\<rparr>) of
                             (Inl ex, st2) \<Rightarrow> (Inl ex, st2)
                           | (Inr _, st2) \<Rightarrow>
                               (Inr top',
                                st2\<lparr>it_src := SaveTiles (reader w) (it_src st2) tiles tdata\<rparr>))))))"

text \<open>The outer loop, which goes on until \<^verbatim>\<open>start == top\<close> or the function ends.\<close>

function Entries_loop_Z ::
  "('s, 'x, 'h) world \<Rightarrow> ('s, 'x, 'h) Client \<Rightarrow> 'h Tree \<Rightarrow> 's iter \<Rightarrow> 'x exit \<times> 's iter" where
  "Entries_loop_Z w c tree st =
     (case Entries_batch_Z w c tree st of
        (Inl ex, st') \<Rightarrow> (ex, st')
      | (Inr top', st') \<Rightarrow>
          if it_start st' = top' then (Returns None, st')
          else Entries_loop_Z w c tree st')"
  by pat_completeness auto

text \<open>
  The entries of the data of a tile, as the loop over the entries cuts them: \<open>cut_rest cf k d\<close>
  is what is left of \<open>d\<close> after \<open>k\<close> entries have been cut from it, if the data is not empty
  and \<open>cf\<close> does not fail before; \<open>cut_entry cf k d\<close> is the entry number \<open>k\<close> (from 0) with
  its record hash.
\<close>

fun cut_rest :: "(bytes \<Rightarrow> 'x + (bytes \<times> 'h \<times> bytes)) \<Rightarrow> nat \<Rightarrow> bytes \<Rightarrow> bytes option" where
  "cut_rest cf 0 d = Some d"
| "cut_rest cf (Suc k) d =
     (if d = [] then None
      else (case cf d of
              Inl e \<Rightarrow> None
            | Inr (entry, rh, rest) \<Rightarrow> cut_rest cf k rest))"

definition cut_entry ::
  "(bytes \<Rightarrow> 'x + (bytes \<times> 'h \<times> bytes)) \<Rightarrow> nat \<Rightarrow> bytes \<Rightarrow> (bytes \<times> 'h) option" where
  "cut_entry cf k d =
     (case cut_rest cf k d of
        None \<Rightarrow> None
      | Some dk \<Rightarrow>
          if dk = [] then None
          else (case cf dk of
                  Inl e \<Rightarrow> None
                | Inr (entry, rh, rest) \<Rightarrow> Some (entry, rh)))"

text \<open>
  \<open>entry_of_tile cf hashes base tdata ti u j e\<close>: \<open>e\<close> is the entry of index \<open>j\<close>, cut from
  the data \<open>tdata[ti]\<close> of the tile \<open>u\<close>, and its record hash is \<open>hashes[j - base]\<close>.
\<close>

definition entry_of_tile ::
  "(bytes \<Rightarrow> 'x + (bytes \<times> 'h \<times> bytes)) \<Rightarrow> 'h list \<Rightarrow> int \<Rightarrow> bytes list \<Rightarrow> nat \<Rightarrow> Tile
     \<Rightarrow> int \<Rightarrow> bytes \<Rightarrow> bool" where
  "entry_of_tile cf hashes base tdata ti u j e \<longleftrightarrow>
     N u * TileWidth \<le> j \<and> j < N u * TileWidth + W u \<and> ti < length tdata \<and>
     (\<exists>rh. cut_entry cf (nat (j - N u * TileWidth)) (tdata ! ti) = Some (e, rh) \<and>
           at_int hashes (j - base) = Inr rh)"

text \<open>The values of \<^verbatim>\<open>base\<close> and \<^verbatim>\<open>tiles\<close> in the turn of the outer loop that starts in \<open>st\<close>.\<close>

definition batch_base :: "'s iter \<Rightarrow> int" where
  "batch_base st = quot (it_start st) TileWidth * TileWidth"

definition batch_of :: "'h Tree \<Rightarrow> 's iter \<Rightarrow> Tile list" where
  "batch_of tree st = batch_tiles_Z (batch_base st) (batch_top_Z tree (batch_base st)) [0..<50]"

text \<open>A run of the iterator over the integers, after the call of \<^verbatim>\<open>Client.Entries\<close>.\<close>

definition Entries_Z ::
  "('s, 'x, 'h) world \<Rightarrow> ('s, 'x, 'h) Client \<Rightarrow> 'h Tree \<Rightarrow> int
     \<Rightarrow> 'x exit \<times> ('s, 'x, 'h) Client \<times> 's iter" where
  "Entries_Z w c tree start =
     (case Entries_loop_Z w (Entries_call c) tree
             \<lparr>it_src = c_tr c, it_polls = 0, it_start = start, it_yielded = [], it_cuts = []\<rparr> of
        (ex, st) \<Rightarrow>
          (ex,
           (case ex of
              Returns (Some e) \<Rightarrow> c\<lparr>c_tr := it_src st, c_err := Some e\<rparr>
            | _ \<Rightarrow> c\<lparr>c_tr := it_src st, c_err := None\<rparr>),
           st))"

text \<open>
  \<open>emitEnd n start\<close> is where the iteration over a tree of \<open>n\<close> entries ends when it begins
  at \<open>start\<close>, in the words of the specification: the largest multiple of the tile width
  that is at most \<open>n\<close>, unless \<open>start\<close> lies at or beyond that bound, in which case it is
  \<open>n\<close>.
\<close>

definition emitEnd :: "int \<Rightarrow> int \<Rightarrow> int" where
  "emitEnd n start = (let m = n div TileWidth * TileWidth in if m \<le> start then n else m)"

text \<open>
  The failures of a run and the index \<open>j\<close> of the entry that was to come next when they were
  met: a failed cut and a hash mismatch name that index, the end of the data of a tile and
  leftover data in a tile name the tile, and a failed read of tiles or of hashes is met at
  the value \<open>s\<close> of \<^verbatim>\<open>start\<close>, where the batch begins.
\<close>

definition failed_at :: "'x exit \<Rightarrow> int \<Rightarrow> int \<Rightarrow> bool" where
  "failed_at ex j s \<longleftrightarrow>
     (case ex of
        Returns None \<Rightarrow> False
      | Returns (Some (CutFailed k e)) \<Rightarrow> k = j
      | Returns (Some (HashMismatch k)) \<Rightarrow> k = j
      | Returns (Some (EndOfTileData t)) \<Rightarrow> t * TileWidth \<le> j \<and> j < t * TileWidth + TileWidth
      | Returns (Some (LeftoverData t)) \<Rightarrow> t * TileWidth \<le> j \<and> j \<le> t * TileWidth + TileWidth
      | Returns (Some (TileReadFailed e)) \<Rightarrow> j = s
      | Returns (Some (HashReadFailed e)) \<Rightarrow> j = s
      | _ \<Rightarrow> True)"

text \<open>
  A run that started at \<open>s0\<close> has ended in the state \<open>st'\<close> with \<open>ex\<close> when \<open>p\<close> was the index
  to come next: the pairs yielded are those of the indexes from \<open>s0\<close> to \<open>p - 1\<close>, and either
  the consumer has stopped the iteration at the last of them or \<open>ex\<close> is a failure met at \<open>p\<close>.
\<close>

definition ends_at :: "('s, 'x, 'h) world \<Rightarrow> int \<Rightarrow> 's iter \<Rightarrow> 'x exit \<Rightarrow> int \<Rightarrow> bool" where
  "ends_at w s0 st' ex p \<longleftrightarrow>
     map fst (it_yielded st') = [s0..max s0 p - 1] \<and>
     (if ex = Returns None then \<not> yield w (it_yielded st') else failed_at ex p (it_start st'))"

text \<open>Tiles that follow one another from the index \<open>a\<close> up to the index \<open>e\<close>.\<close>

fun consecutive :: "int \<Rightarrow> int \<Rightarrow> Tile list \<Rightarrow> bool" where
  "consecutive a e [] = True"
| "consecutive a e (u # us) =
     (N u * TileWidth = a \<and> a < e \<and> W u = min TileWidth (e - a) \<and>
      consecutive (a + TileWidth) e us)"

text \<open>
  The invariant of the outer loop of a run that began at \<open>s0\<close>: \<^verbatim>\<open>start\<close> is still \<open>s0\<close>, or it
  is a multiple of the tile width beyond \<open>s0\<close> and below the last full tile's end; and the
  pairs of the indexes from \<open>s0\<close> to \<^verbatim>\<open>start\<close> have been yielded.
\<close>

definition head_inv :: "'h Tree \<Rightarrow> int \<Rightarrow> 's iter \<Rightarrow> bool" where
  "head_inv tree s0 st \<longleftrightarrow>
     (it_start st = s0 \<or>
      (TileWidth dvd it_start st \<and> s0 < it_start st \<and>
       it_start st < tree_N tree div TileWidth * TileWidth)) \<and>
     map fst (it_yielded st) = [s0..it_start st - 1]"

section \<open>Properties\<close>

subsection \<open>The preset cut function\<close>

lemma Index_none:
  "(\<forall>k. \<not> occurs_at sep s k) \<Longrightarrow> Index s sep = - 1"
proof (induction s)
  case Nil
  from Nil [rule_format, of 0] show ?case
    by (auto simp: Index.simps [of "[]"] occurs_at_def)
next
  case (Cons a s)
  have no: "\<forall>k. \<not> occurs_at sep s k"
  proof
    fix k
    from Cons.prems [rule_format, of "Suc k"] show "\<not> occurs_at sep s k"
      by (simp add: occurs_at_def)
  qed
  have "take (length sep) (a # s) \<noteq> sep"
  proof
    assume e: "take (length sep) (a # s) = sep"
    from arg_cong [OF e, of length] have "length sep \<le> length (a # s)"
      by simp
    with e have "occurs_at sep (a # s) 0" by (simp add: occurs_at_def)
    with Cons.prems show False by blast
  qed
  with Cons.IH [OF no] show ?case
    by (simp add: Index.simps [of "a # s"])
qed

lemma Index_first:
  "occurs_at sep s k \<Longrightarrow> \<forall>j<k. \<not> occurs_at sep s j \<Longrightarrow> Index s sep = int k"
proof (induction s arbitrary: k)
  case Nil
  then show ?case by (auto simp: Index.simps [of "[]"] occurs_at_def)
next
  case (Cons a s)
  show ?case
  proof (cases k)
    case 0
    with Cons.prems(1) show ?thesis
      by (simp add: Index.simps [of "a # s"] occurs_at_def)
  next
    case (Suc k')
    from Cons.prems(1) Suc have occ: "occurs_at sep s k'"
      by (simp add: occurs_at_def)
    have first: "\<forall>j<k'. \<not> occurs_at sep s j"
    proof (intro allI impI)
      fix j assume "j < k'"
      with Cons.prems(2) Suc have "\<not> occurs_at sep (a # s) (Suc j)" by simp
      then show "\<not> occurs_at sep s j" by (simp add: occurs_at_def)
    qed
    have "take (length sep) (a # s) \<noteq> sep"
    proof
      assume e: "take (length sep) (a # s) = sep"
      from arg_cong [OF e, of length] have "length sep \<le> length (a # s)"
        by simp
      with e have "occurs_at sep (a # s) 0" by (simp add: occurs_at_def)
      with Cons.prems(2) Suc show False by simp
    qed
    with Cons.IH [OF occ first] Suc show ?thesis
      by (simp add: Index.simps [of "a # s"])
  qed
qed

text \<open>
  C9. For every tile: if \<^verbatim>\<open>"\n\n"\<close> occurs in the tile, with first occurrence at index \<open>idx\<close>,
  the preset returns the entry \<open>tile[:idx+1]\<close>, the rest \<open>tile[idx+2:]\<close> and the record hash of
  the entry; if it does not occur, the whole tile is the entry and the rest is empty; the
  preset never returns an error.
\<close>

theorem WithSumDBEntries_cut:
  "(\<forall>idx. occurs_at nlnl tile idx \<and> (\<forall>j<idx. \<not> occurs_at nlnl tile j) \<longrightarrow>
      WithSumDBEntries RecordHash tile =
        Inr (take (idx + 1) tile, RecordHash (take (idx + 1) tile), drop (idx + 2) tile)) \<and>
   ((\<forall>k. \<not> occurs_at nlnl tile k) \<longrightarrow>
      WithSumDBEntries RecordHash tile = Inr (tile, RecordHash tile, [])) \<and>
   (\<forall>e. WithSumDBEntries RecordHash tile \<noteq> Inl e)"
proof (intro conjI allI impI)
  fix idx
  assume "occurs_at nlnl tile idx \<and> (\<forall>j<idx. \<not> occurs_at nlnl tile j)"
  then have "Index tile nlnl = int idx" by (simp add: Index_first)
  moreover have "nat (int idx + 1) = idx + 1" "nat (int idx + 2) = idx + 2" by simp_all
  ultimately show "WithSumDBEntries RecordHash tile =
      Inr (take (idx + 1) tile, RecordHash (take (idx + 1) tile), drop (idx + 2) tile)"
    by (simp add: WithSumDBEntries_def Let_def)
next
  assume "\<forall>k. \<not> occurs_at nlnl tile k"
  then have "Index tile nlnl = - 1" by (rule Index_none)
  then show "WithSumDBEntries RecordHash tile = Inr (tile, RecordHash tile, [])"
    by (simp add: WithSumDBEntries_def Let_def)
next
  fix e
  show "WithSumDBEntries RecordHash tile \<noteq> Inl e"
    by (simp add: WithSumDBEntries_def Let_def split: prod.splits)
qed

theorem WithSumDBEntries_cut_witness:
  "WithSumDBEntries (\<lambda>e. length e) [97, 10, 10, 98, 10, 10 :: byte]
     = (Inr ([97, 10], 2, [98, 10, 10]) :: unit + (bytes \<times> nat \<times> bytes)) \<and>
   WithSumDBEntries (\<lambda>e. length e) [97, 10, 98 :: byte]
     = (Inr ([97, 10, 98], 3, []) :: unit + (bytes \<times> nat \<times> bytes))"
proof -
  let ?t = "[97, 10, 10, 98, 10, 10 :: byte]"
  let ?u = "[97, 10, 98 :: byte]"
  have occ: "occurs_at nlnl ?t 1 \<and> (\<forall>j<1. \<not> occurs_at nlnl ?t j)"
    by (simp add: occurs_at_def nlnl_def)
  have none: "\<forall>k. \<not> occurs_at nlnl ?u k"
  proof
    fix k :: nat
    have "k = 0 \<or> k = 1 \<or> k \<ge> 2" by arith
    then show "\<not> occurs_at nlnl ?u k"
      by (auto simp: occurs_at_def nlnl_def)
  qed
  from WithSumDBEntries_cut [of ?t "\<lambda>e. length e"] occ
  have a: "WithSumDBEntries (\<lambda>e. length e) ?t
      = (Inr (take (1 + 1) ?t, length (take (1 + 1) ?t), drop (1 + 2) ?t)
          :: unit + (bytes \<times> nat \<times> bytes))"
    by blast
  from WithSumDBEntries_cut [of ?u "\<lambda>e. length e"] none
  have b: "WithSumDBEntries (\<lambda>e. length e) ?u
      = (Inr (?u, length ?u, []) :: unit + (bytes \<times> nat \<times> bytes))"
    by blast
  from a b show ?thesis by simp
qed

subsection \<open>The edge memory cache\<close>

lemma edge_inv_empty: "edge_inv Map.empty"
  by (simp add: edge_inv_def)

lemma edge_invD:
  "edge_inv m \<Longrightarrow> m l = Some (a, b) \<Longrightarrow>
     \<not> (Tile a = zeroTile \<and> Tile b = zeroTile) \<and>
     (Tile a = zeroTile \<or> L (Tile a) = l) \<and> (Tile b = zeroTile \<or> L (Tile b) = l)"
  unfolding edge_inv_def by blast

lemma edge_invI:
  "(\<And>l a b. m l = Some (a, b) \<Longrightarrow>
     \<not> (Tile a = zeroTile \<and> Tile b = zeroTile) \<and>
     (Tile a = zeroTile \<or> L (Tile a) = l) \<and> (Tile b = zeroTile \<or> L (Tile b) = l))
   \<Longrightarrow> edge_inv m"
  unfolding edge_inv_def by blast

lemma tileLess_desc_less:
  "a = zeroTile \<or> L a = l \<Longrightarrow> b = zeroTile \<or> L b = l \<Longrightarrow> \<not> (a = zeroTile \<and> b = zeroTile)
     \<Longrightarrow> tileLess a b = Inr (desc_less a b)"
  by (auto simp: tileLess_def desc_less_def)

lemma save_slot_displace:
  assumes inv: "edge_inv m" and nz: "u \<noteq> zeroTile" and i: "i < length xs"
  shows "save_slot m i u xs = Inr (m(L u \<mapsto> displace (m (L u)) u (xs ! i)))"
proof (cases "m (L u)")
  case None
  with i show ?thesis by (simp add: save_slot_def at_def displace_def)
next
  case (Some td)
  obtain a b where td: "td = (a, b)" by (cases td)
  from Some td have "m (L u) = Some (a, b)" by simp
  from edge_invD [OF inv this]
  have nb: "\<not> (Tile a = zeroTile \<and> Tile b = zeroTile)"
    and la: "Tile a = zeroTile \<or> L (Tile a) = L u"
    and lb: "Tile b = zeroTile \<or> L (Tile b) = L u"
    by simp_all
  have lu: "u = zeroTile \<or> L u = L u" by simp
  have au: "tileLess (Tile a) u = Inr (desc_less (Tile a) u)"
    using la lu nz by (intro tileLess_desc_less [where l = "L u"]) auto
  have bu: "tileLess (Tile b) u = Inr (desc_less (Tile b) u)"
    using lb lu nz by (intro tileLess_desc_less [where l = "L u"]) auto
  have ab: "tileLess (Tile a) (Tile b) = Inr (desc_less (Tile a) (Tile b))"
    using la lb nb by (intro tileLess_desc_less [where l = "L u"]) auto
  have ba: "tileLess (Tile b) (Tile a) = Inr (desc_less (Tile b) (Tile a))"
    using la lb nb by (intro tileLess_desc_less [where l = "L u"]) auto
  have same: "m(L u \<mapsto> (a, b)) = m" using Some td by (auto simp: fun_upd_idem)
  show ?thesis
    using Some td i same
    by (simp add: save_slot_def at_def displace_def and_also_def au bu ab ba)
qed

lemma displace_slots:
  assumes nb: "old = Some (a, b) \<Longrightarrow> \<not> (Tile a = zeroTile \<and> Tile b = zeroTile)"
    and la: "old = Some (a, b) \<Longrightarrow> Tile a = zeroTile \<or> L (Tile a) = L u"
    and lb: "old = Some (a, b) \<Longrightarrow> Tile b = zeroTile \<or> L (Tile b) = L u"
    and old: "old = None \<or> old = Some (a, b)"
    and nz: "u \<noteq> zeroTile"
    and r: "displace old u d = (a', b')"
  shows "\<not> (Tile a' = zeroTile \<and> Tile b' = zeroTile) \<and>
     (Tile a' = zeroTile \<or> L (Tile a') = L u) \<and> (Tile b' = zeroTile \<or> L (Tile b') = L u)"
proof (cases old)
  case None
  with r have "a' = \<lparr>Tile = u, data = d\<rparr>" "b' = zeroTileWithData"
    by (simp_all add: displace_def)
  with nz show ?thesis by (simp add: zeroTileWithData_def)
next
  case (Some td)
  with old have o: "old = Some (a, b)" by simp
  note nb = nb [OF o] and la = la [OF o] and lb = lb [OF o]
  consider (same) "Tile a = u \<or> Tile b = u"
    | (first) "\<not> (Tile a = u \<or> Tile b = u)" "desc_less (Tile a) u \<and> desc_less (Tile a) (Tile b)"
    | (second) "\<not> (Tile a = u \<or> Tile b = u)" "\<not> (desc_less (Tile a) u \<and> desc_less (Tile a) (Tile b))"
        "desc_less (Tile b) u \<and> desc_less (Tile b) (Tile a)"
    | (none) "\<not> (Tile a = u \<or> Tile b = u)" "\<not> (desc_less (Tile a) u \<and> desc_less (Tile a) (Tile b))"
        "\<not> (desc_less (Tile b) u \<and> desc_less (Tile b) (Tile a))"
    by blast
  then show ?thesis
  proof cases
    case same
    with r o have "a' = a" "b' = b" by (simp_all add: displace_def)
    with nb la lb show ?thesis by simp
  next
    case first
    with r o have "a' = \<lparr>Tile = u, data = d\<rparr>" "b' = b" by (simp_all add: displace_def)
    with nz lb show ?thesis by simp
  next
    case second
    with r o have "a' = a" "b' = \<lparr>Tile = u, data = d\<rparr>" by (simp_all add: displace_def)
    with nz la show ?thesis by simp
  next
    case none
    with r o have "a' = a" "b' = b" by (simp_all add: displace_def)
    with nb la lb show ?thesis by simp
  qed
qed

lemma displace_inv:
  assumes inv: "edge_inv m" and nz: "u \<noteq> zeroTile"
  shows "edge_inv (m(L u \<mapsto> displace (m (L u)) u d))"
proof (rule edge_invI)
  fix l a' b'
  assume h: "(m(L u \<mapsto> displace (m (L u)) u d)) l = Some (a', b')"
  show "\<not> (Tile a' = zeroTile \<and> Tile b' = zeroTile) \<and>
     (Tile a' = zeroTile \<or> L (Tile a') = l) \<and> (Tile b' = zeroTile \<or> L (Tile b') = l)"
  proof (cases "l = L u")
    case False
    with h have "m l = Some (a', b')" by simp
    from edge_invD [OF inv this] show ?thesis .
  next
    case True
    with h have r: "displace (m (L u)) u d = (a', b')" by simp
    obtain a b where ab: "m (L u) = None \<or> m (L u) = Some (a, b)"
      by (cases "m (L u)") auto
    have "\<not> (Tile a' = zeroTile \<and> Tile b' = zeroTile) \<and>
      (Tile a' = zeroTile \<or> L (Tile a') = L u) \<and> (Tile b' = zeroTile \<or> L (Tile b') = L u)"
      using edge_invD [OF inv, of "L u" a b] ab nz r
      by (intro displace_slots [where old = "m (L u)" and a = a and b = b and d = d]) simp_all
    with True show ?thesis by simp
  qed
qed

lemma save_policy_pair:
  "save_policy m (u, d) = m(L u \<mapsto> displace (m (L u)) u d)"
  by (simp add: save_policy_def)

lemma save_slots_foldl:
  assumes "edge_inv m" and "\<forall>u\<in>set tiles. u \<noteq> zeroTile" and "k + length tiles \<le> length xs"
  shows "save_slots m (enumerate k tiles) xs =
           Inr (foldl save_policy m (zip tiles (drop k xs)))
         \<and> edge_inv (foldl save_policy m (zip tiles (drop k xs)))"
  using assms
proof (induction tiles arbitrary: m k)
  case Nil
  then show ?case by simp
next
  case (Cons u tiles)
  from Cons.prems have k: "k < length xs" and nz: "u \<noteq> zeroTile" by auto
  from k have dr: "drop k xs = xs ! k # drop (Suc k) xs"
    by (simp add: Cons_nth_drop_Suc)
  let ?m = "m(L u \<mapsto> displace (m (L u)) u (xs ! k))"
  have step: "save_slot m k u xs = Inr ?m"
    using Cons.prems(1) nz k by (rule save_slot_displace)
  have inv: "edge_inv ?m" using Cons.prems(1) nz by (rule displace_inv)
  from Cons.prems have "\<forall>u\<in>set tiles. u \<noteq> zeroTile" "Suc k + length tiles \<le> length xs"
    by auto
  note IH = Cons.IH [OF inv this]
  have e1: "save_slots m (enumerate k (u # tiles)) xs = save_slots ?m (enumerate (Suc k) tiles) xs"
    using step by simp
  have e2: "foldl save_policy m (zip (u # tiles) (drop k xs))
      = foldl save_policy ?m (zip tiles (drop (Suc k) xs))"
    by (subst dr) (simp add: save_policy_pair)
  show ?case unfolding e1 e2 by (rule IH)
qed

lemma uncached_total:
  "k + length tiles \<le> length xs \<Longrightarrow> \<exists>r. uncached m (enumerate k tiles) xs = Inr r"
proof (induction tiles arbitrary: k)
  case Nil
  then show ?case by simp
next
  case (Cons u tiles)
  from Cons.prems have "Suc k + length tiles \<le> length xs" by simp
  from Cons.IH [OF this] obtain r where r: "uncached m (enumerate (Suc k) tiles) xs = Inr r"
    by blast
  from Cons.prems have "k < length xs" by simp
  with r show ?case by (cases r) (simp add: at_def Let_def)
qed

lemma foldl_displace_dom:
  "u \<in> set (map fst tds) \<Longrightarrow>
     foldl save_policy m tds (L u) \<noteq> None"
proof (induction tds arbitrary: m rule: rev_induct)
  case Nil
  then show ?case by simp
next
  case (snoc x tds)
  obtain v d where x: "x = (v, d)" by (cases x)
  show ?case
  proof (cases "L v = L u")
    case True
    with x show ?thesis by (simp add: save_policy_pair)
  next
    case False
    with snoc.prems x have "u \<in> set (map fst tds)" by auto
    from snoc.IH [OF this] False x show ?thesis by (simp add: save_policy_pair)
  qed
qed

text \<open>
  C7. From a cache that satisfies the invariant (the empty cache of \<^verbatim>\<open>NewClient\<close> does),
  \<^verbatim>\<open>edgeMemoryCache.SaveTiles\<close> on non-zero descriptors does not panic and treats the saved
  descriptors one after the other by the policy \<open>displace\<close>: a level without slots gets the
  descriptor in slot 0; a descriptor already in a slot changes nothing; otherwise the slot
  whose descriptor is strictly less (zero least, then \<open>(N, W)\<close> lexicographically) than both
  the new descriptor and the other slot is replaced by the new descriptor and its bytes.
  The invariant holds again afterwards, so the two slots of a level never both hold the zero
  descriptor, and every level of a saved descriptor has its slots.
\<close>

theorem edgeMemoryCache_SaveTiles_policy:
  assumes "edge_inv (cache_t c)" and "\<forall>u\<in>set tiles. u \<noteq> zeroTile"
    and "length tiles \<le> length xs"
  shows "\<exists>c'. edgeMemoryCache_SaveTiles inner c tiles xs = Inr c' \<and>
           cache_t c' = foldl save_policy
                          (cache_t c) (zip tiles xs) \<and>
           edge_inv (cache_t c') \<and>
           (\<forall>u\<in>set tiles. \<exists>a b. cache_t c' (L u) = Some (a, b) \<and>
                                \<not> (Tile a = zeroTile \<and> Tile b = zeroTile))"
proof -
  let ?m = "foldl save_policy (cache_t c) (zip tiles xs)"
  from assms(3) have len: "0 + length tiles \<le> length xs" by simp
  from uncached_total [OF len] obtain ts ds
    where u: "uncached (cache_t c) (enumerate 0 tiles) xs = Inr (ts, ds)" by fastforce
  from save_slots_foldl [OF assms(1,2) len]
  have s: "save_slots (cache_t c) (enumerate 0 tiles) xs = Inr ?m" and inv: "edge_inv ?m"
    by simp_all
  have dom: "\<exists>a b. ?m (L v) = Some (a, b) \<and> \<not> (Tile a = zeroTile \<and> Tile b = zeroTile)"
    if v: "v \<in> set tiles" for v
  proof -
    from assms(3) have "map fst (zip tiles xs) = tiles"
      by (simp add: map_fst_zip_take min_def)
    with v have "v \<in> set (map fst (zip tiles xs))" by simp
    from foldl_displace_dom [OF this] obtain a b where ab: "?m (L v) = Some (a, b)"
      by fastforce
    from edge_invD [OF inv ab] ab show ?thesis by blast
  qed
  from u s inv dom show ?thesis
    by (simp add: edgeMemoryCache_SaveTiles_def)
qed

theorem edgeMemoryCache_SaveTiles_policy_witness:
  "\<exists>c'. edgeMemoryCache_SaveTiles
          \<lparr>ReadTiles = (\<lambda>s ts. (Inl (), s)), SaveTiles = (\<lambda>s ts ds. s)\<rparr>
          \<lparr>cache_tr = (), cache_t = Map.empty\<rparr>
          [\<lparr>H = 8, L = 0, N = 0, W = 256\<rparr>, \<lparr>H = 8, L = 0, N = 1, W = 256\<rparr>,
           \<lparr>H = 8, L = 0, N = 1, W = 256\<rparr>, \<lparr>H = 8, L = 0, N = 2, W = 256\<rparr>]
          [[1], [2], [3], [4]] = Inr c' \<and>
        cache_t c' 0 = Some (\<lparr>Tile = \<lparr>H = 8, L = 0, N = 2, W = 256\<rparr>, data = [4]\<rparr>,
                             \<lparr>Tile = \<lparr>H = 8, L = 0, N = 1, W = 256\<rparr>, data = [2]\<rparr>)"
proof -
  let ?inner = "\<lparr>ReadTiles = (\<lambda>s ts. (Inl (), s)), SaveTiles = (\<lambda>s ts ds. s)\<rparr>
    :: (unit, unit) TileReaderWithContext"
  let ?c = "\<lparr>cache_tr = (), cache_t = Map.empty\<rparr> :: unit edgeMemoryCache"
  let ?tiles = "[\<lparr>H = 8, L = 0, N = 0, W = 256\<rparr>, \<lparr>H = 8, L = 0, N = 1, W = 256\<rparr>,
           \<lparr>H = 8, L = 0, N = 1, W = 256\<rparr>, \<lparr>H = 8, L = 0, N = 2, W = 256\<rparr>]"
  let ?xs = "[[1], [2], [3], [4]] :: bytes list"
  have h1: "edge_inv (cache_t ?c)" by (simp add: edge_inv_def)
  have h2: "\<forall>u\<in>set ?tiles. u \<noteq> zeroTile" by (simp add: zeroTile_def)
  have h3: "length ?tiles \<le> length ?xs" by simp
  from edgeMemoryCache_SaveTiles_policy [OF h1 h2 h3, of ?inner]
  obtain c' where r: "edgeMemoryCache_SaveTiles ?inner ?c ?tiles ?xs = Inr c'"
    and m: "cache_t c' = foldl save_policy (cache_t ?c) (zip ?tiles ?xs)"
    by blast
  have "foldl save_policy (cache_t ?c) (zip ?tiles ?xs) 0
      = Some (\<lparr>Tile = \<lparr>H = 8, L = 0, N = 2, W = 256\<rparr>, data = [4]\<rparr>,
              \<lparr>Tile = \<lparr>H = 8, L = 0, N = 1, W = 256\<rparr>, data = [2]\<rparr>)"
    by (simp add: save_policy_def displace_def desc_less_def zeroTile_def zeroTileWithData_def)
  with r m show ?thesis by simp
qed

subsection \<open>The permanent cache\<close>


lemma at_Inr: "at xs i = Inr d \<longleftrightarrow> i < length xs \<and> d = xs ! i"
  by (auto simp: at_def)

lemma at_Inl: "at xs i = Inl p \<Longrightarrow> \<not> i < length xs"
  by (auto simp: at_def split: if_splits)

text \<open>What one iteration of the loop does, when it does not panic.\<close>

lemma save_tile_props:
  assumes "save_tile os (c, f, calls) i u xs = Next (c', f', calls') \<or>
           save_tile os (c, f, calls) i u xs = Return (c', f', calls')"
  shows "pc_dir c' = pc_dir c \<and> pc_tilePath c' = pc_tilePath c \<and> pc_tr c' = pc_tr c \<and>
    (\<exists>new. calls' = calls @ new \<and>
       (\<forall>p d. CallWriteFile p d \<in> set new \<longrightarrow>
          H u = TileHeight \<and> W u = TileWidth \<and> p = Join os (pc_dir c) (pc_tilePath c u) \<and>
          i < length xs \<and> d = xs ! i \<and> Stat os f p \<noteq> None))"
  using assms
  by (auto simp: save_tile_def pc_logs_def Let_def at_Inr
      split: if_splits option.splits prod.splits sum.splits)

lemma save_tile_frame:
  assumes fr: "frame os"
    and r: "save_tile os (c, f, calls) i u xs = Next (c', f', calls') \<or>
            save_tile os (c, f, calls) i u xs = Return (c', f', calls')"
    and p: "Stat os f p = None"
  shows "Stat os f' p = None \<and> ReadFile os f' p = ReadFile os f p"
proof -
  let ?path = "Join os (pc_dir c) (pc_tilePath c u)"
  from fr have mk: "\<And>f q r f'. MkdirAll os f q = (r, f') \<Longrightarrow> Stat os f p = None \<Longrightarrow>
      Stat os f' p = None \<and> ReadFile os f' p = ReadFile os f p"
    unfolding frame_def by blast
  from fr have wr: "\<And>f q d r f'. WriteFile os f q d = (r, f') \<Longrightarrow> Stat os f p = None \<Longrightarrow>
      p \<noteq> q \<Longrightarrow> Stat os f' p = None \<and> ReadFile os f' p = ReadFile os f p"
    unfolding frame_def by blast
  consider (same) "f' = f"
    | (mkdir) r0 where "MkdirAll os f (Dir os ?path) = (r0, f')"
    | (wrote) f1 d r2 where "Stat os f ?path \<noteq> None" "MkdirAll os f (Dir os ?path) = (None, f1)"
        "WriteFile os f1 ?path d = (r2, f')"
    using r
    by (auto simp: save_tile_def pc_logs_def Let_def
        split: if_splits option.splits prod.splits sum.splits)
  then show ?thesis
  proof cases
    case same
    with p show ?thesis by simp
  next
    case mkdir
    from mk [OF this p] show ?thesis .
  next
    case wrote
    from wrote(1) p have ne: "p \<noteq> ?path" by auto
    from mk [OF wrote(2) p] have p1: "Stat os f1 p = None"
      and r1: "ReadFile os f1 p = ReadFile os f p" by simp_all
    from wr [OF wrote(3) p1 ne] r1 show ?thesis by simp
  qed
qed

lemma save_tile_no_panic:
  "i < length xs \<Longrightarrow> save_tile os st i u xs \<noteq> Panicked q"
  by (cases st)
     (auto simp: save_tile_def Let_def at_def split: if_splits option.splits prod.splits)

lemma save_loop_no_panic:
  "\<forall>(i, u)\<in>set its. i < length xs \<Longrightarrow> save_loop os st its xs \<noteq> Panicked q"
proof (induction its arbitrary: st)
  case Nil
  then show ?case by simp
next
  case (Cons iu its)
  obtain i u where iu: "iu = (i, u)" by (cases iu)
  with Cons.prems have i: "i < length xs" and rest: "\<forall>(i, u)\<in>set its. i < length xs"
    by auto
  from save_tile_no_panic [OF i, of os st u q] Cons.IH [OF rest] iu show ?case
    by (auto split: step.splits)
qed

lemma save_loop_props:
  assumes "save_loop os (c, f, calls) its xs = Next (c', f', calls') \<or>
           save_loop os (c, f, calls) its xs = Return (c', f', calls')"
  shows "pc_dir c' = pc_dir c \<and> pc_tilePath c' = pc_tilePath c \<and>
    (\<exists>new. calls' = calls @ new \<and>
       (\<forall>p d. CallWriteFile p d \<in> set new \<longrightarrow>
          (\<exists>(i, u)\<in>set its. H u = TileHeight \<and> W u = TileWidth \<and>
             p = Join os (pc_dir c) (pc_tilePath c u) \<and> i < length xs \<and> d = xs ! i)))"
  using assms
proof (induction its arbitrary: c f calls)
  case Nil
  then show ?case by simp
next
  case (Cons iu its)
  obtain i u where iu: "iu = (i, u)" by (cases iu)
  show ?case
  proof (cases "save_tile os (c, f, calls) i u xs")
    case (Next st1)
    obtain c1 f1 calls1 where st1: "st1 = (c1, f1, calls1)" by (cases st1)
    from Next st1 have "save_tile os (c, f, calls) i u xs = Next (c1, f1, calls1) \<or>
        save_tile os (c, f, calls) i u xs = Return (c1, f1, calls1)" by simp
    from save_tile_props [OF this] obtain new1 where
      d1: "pc_dir c1 = pc_dir c" "pc_tilePath c1 = pc_tilePath c" and
      n1: "calls1 = calls @ new1" and
      w1: "\<forall>p d. CallWriteFile p d \<in> set new1 \<longrightarrow>
          H u = TileHeight \<and> W u = TileWidth \<and> p = Join os (pc_dir c) (pc_tilePath c u) \<and>
          i < length xs \<and> d = xs ! i \<and> Stat os f p \<noteq> None"
      by blast
    from Cons.prems Next st1 iu
    have "save_loop os (c1, f1, calls1) its xs = Next (c', f', calls') \<or>
          save_loop os (c1, f1, calls1) its xs = Return (c', f', calls')" by simp
    from Cons.IH [OF this] obtain new2 where
      d2: "pc_dir c' = pc_dir c1" "pc_tilePath c' = pc_tilePath c1" and
      n2: "calls' = calls1 @ new2" and
      w2: "\<forall>p d. CallWriteFile p d \<in> set new2 \<longrightarrow>
          (\<exists>(i, u)\<in>set its. H u = TileHeight \<and> W u = TileWidth \<and>
             p = Join os (pc_dir c1) (pc_tilePath c1 u) \<and> i < length xs \<and> d = xs ! i)"
      by blast
    have "calls' = calls @ (new1 @ new2)" using n1 n2 by simp
    moreover have "\<forall>p d. CallWriteFile p d \<in> set (new1 @ new2) \<longrightarrow>
          (\<exists>(i, u)\<in>set (iu # its). H u = TileHeight \<and> W u = TileWidth \<and>
             p = Join os (pc_dir c) (pc_tilePath c u) \<and> i < length xs \<and> d = xs ! i)"
    proof (intro allI impI)
      fix p d assume "CallWriteFile p d \<in> set (new1 @ new2)"
      then consider "CallWriteFile p d \<in> set new1" | "CallWriteFile p d \<in> set new2" by auto
      then show "\<exists>(i, u)\<in>set (iu # its). H u = TileHeight \<and> W u = TileWidth \<and>
             p = Join os (pc_dir c) (pc_tilePath c u) \<and> i < length xs \<and> d = xs ! i"
      proof cases
        case 1
        with w1 iu show ?thesis by auto
      next
        case 2
        with w2 d1 show ?thesis by auto
      qed
    qed
    ultimately have "\<exists>new. calls' = calls @ new \<and>
       (\<forall>p d. CallWriteFile p d \<in> set new \<longrightarrow>
          (\<exists>(i, u)\<in>set (iu # its). H u = TileHeight \<and> W u = TileWidth \<and>
             p = Join os (pc_dir c) (pc_tilePath c u) \<and> i < length xs \<and> d = xs ! i))"
      by (intro exI [of _ "new1 @ new2"] conjI)
    with d1 d2 show ?thesis by simp
  next
    case (Return st1)
    obtain c1 f1 calls1 where st1: "st1 = (c1, f1, calls1)" by (cases st1)
    from Cons.prems Return iu have e: "st1 = (c', f', calls')" by simp
    with Return have "save_tile os (c, f, calls) i u xs = Next (c', f', calls') \<or>
        save_tile os (c, f, calls) i u xs = Return (c', f', calls')" by simp
    from save_tile_props [OF this] iu show ?thesis by auto
  next
    case (Panicked q)
    with Cons.prems iu show ?thesis by simp
  qed
qed

lemma save_loop_frame:
  assumes fr: "frame os"
    and "save_loop os (c, f, calls) its xs = Next (c', f', calls') \<or>
         save_loop os (c, f, calls) its xs = Return (c', f', calls')"
    and "Stat os f p = None"
  shows "Stat os f' p = None \<and> ReadFile os f' p = ReadFile os f p \<and>
         (\<forall>d. CallWriteFile p d \<notin> set (drop (length calls) calls'))"
  using assms(2,3)
proof (induction its arbitrary: c f calls)
  case Nil
  then show ?case by simp
next
  case (Cons iu its)
  obtain i u where iu: "iu = (i, u)" by (cases iu)
  show ?case
  proof (cases "save_tile os (c, f, calls) i u xs")
    case (Next st1)
    obtain c1 f1 calls1 where st1: "st1 = (c1, f1, calls1)" by (cases st1)
    from Next st1 have t: "save_tile os (c, f, calls) i u xs = Next (c1, f1, calls1) \<or>
        save_tile os (c, f, calls) i u xs = Return (c1, f1, calls1)" by simp
    from save_tile_frame [OF fr t Cons.prems(2)]
    have p1: "Stat os f1 p = None" and r1: "ReadFile os f1 p = ReadFile os f p" by simp_all
    from save_tile_props [OF t] Cons.prems(2) obtain new1 where
      n1: "calls1 = calls @ new1" and w1: "\<forall>d. CallWriteFile p d \<notin> set new1"
      by blast
    from Cons.prems(1) Next st1 iu
    have l: "save_loop os (c1, f1, calls1) its xs = Next (c', f', calls') \<or>
          save_loop os (c1, f1, calls1) its xs = Return (c', f', calls')" by simp
    from Cons.IH [OF l p1] have p2: "Stat os f' p = None"
      and r2: "ReadFile os f' p = ReadFile os f1 p"
      and w2: "\<forall>d. CallWriteFile p d \<notin> set (drop (length calls1) calls')" by simp_all
    from save_loop_props [OF l] obtain new2 where n2: "calls' = calls1 @ new2"
      by blast
    from n1 n2 have "drop (length calls) calls' = new1 @ new2" by simp
    moreover from n1 n2 have "drop (length calls1) calls' = new2" by simp
    ultimately have "\<forall>d. CallWriteFile p d \<notin> set (drop (length calls) calls')"
      using w1 w2 by simp
    with p2 r2 r1 show ?thesis by simp
  next
    case (Return st1)
    from Cons.prems(1) Return iu have e: "st1 = (c', f', calls')" by simp
    with Return have t: "save_tile os (c, f, calls) i u xs = Next (c', f', calls') \<or>
        save_tile os (c, f, calls) i u xs = Return (c', f', calls')" by simp
    from save_tile_props [OF t] Cons.prems(2) obtain new1 where
      n1: "calls' = calls @ new1" and w1: "\<forall>d. CallWriteFile p d \<notin> set new1"
      by blast
    from save_tile_frame [OF fr t Cons.prems(2)] n1 w1 show ?thesis by simp
  next
    case (Panicked q)
    with Cons.prems iu show ?thesis by simp
  qed
qed

lemma PermanentCache_SaveTiles_once:
  assumes fr: "frame os" and len: "length tiles \<le> length xs"
  shows "\<exists>c' f' calls'. PermanentCache_SaveTiles os inner c f tiles xs = Inr (c', f', calls') \<and>
     pc_dir c' = pc_dir c \<and> pc_tilePath c' = pc_tilePath c \<and>
     (\<forall>p d. CallWriteFile p d \<in> set calls' \<longrightarrow>
        (\<exists>i<length tiles. H (tiles ! i) = TileHeight \<and> W (tiles ! i) = TileWidth \<and>
           p = Join os (pc_dir c) (pc_tilePath c (tiles ! i)) \<and> d = xs ! i) \<and>
        Stat os f p \<noteq> None) \<and>
     (\<forall>p. Stat os f p = None \<longrightarrow> Stat os f' p = None \<and> ReadFile os f' p = ReadFile os f p)"
proof -
  let ?its = "enumerate 0 tiles"
  from len have "\<forall>(i, u)\<in>set ?its. i < length xs"
    by (auto simp: in_set_enumerate_eq)
  from save_loop_no_panic [OF this]
  have np: "\<And>q. save_loop os (c, f, []) ?its xs \<noteq> Panicked q" .
  then obtain c1 f1 calls1 where
    l: "save_loop os (c, f, []) ?its xs = Next (c1, f1, calls1) \<or>
        save_loop os (c, f, []) ?its xs = Return (c1, f1, calls1)"
    by (cases "save_loop os (c, f, []) ?its xs") auto
  from save_loop_props [OF l] have d: "pc_dir c1 = pc_dir c" "pc_tilePath c1 = pc_tilePath c"
    and w: "\<forall>p d. CallWriteFile p d \<in> set calls1 \<longrightarrow>
          (\<exists>(i, u)\<in>set ?its. H u = TileHeight \<and> W u = TileWidth \<and>
             p = Join os (pc_dir c) (pc_tilePath c u) \<and> i < length xs \<and> d = xs ! i)"
    by auto
  have w': "\<forall>p d. CallWriteFile p d \<in> set calls1 \<longrightarrow>
        (\<exists>i<length tiles. H (tiles ! i) = TileHeight \<and> W (tiles ! i) = TileWidth \<and>
           p = Join os (pc_dir c) (pc_tilePath c (tiles ! i)) \<and> d = xs ! i) \<and>
        Stat os f p \<noteq> None"
  proof (intro allI impI conjI)
    fix p d assume h: "CallWriteFile p d \<in> set calls1"
    with w obtain i u where "(i, u) \<in> set ?its" "H u = TileHeight" "W u = TileWidth"
      "p = Join os (pc_dir c) (pc_tilePath c u)" "d = xs ! i" by blast
    then show "\<exists>i<length tiles. H (tiles ! i) = TileHeight \<and> W (tiles ! i) = TileWidth \<and>
           p = Join os (pc_dir c) (pc_tilePath c (tiles ! i)) \<and> d = xs ! i"
      by (auto simp: in_set_enumerate_eq)
    show "Stat os f p \<noteq> None"
    proof
      assume "Stat os f p = None"
      from save_loop_frame [OF fr l this] h show False by simp
    qed
  qed
  have fr': "\<forall>p. Stat os f p = None \<longrightarrow>
      Stat os f1 p = None \<and> ReadFile os f1 p = ReadFile os f p"
    using save_loop_frame [OF fr l] by blast
  from l show ?thesis
  proof
    assume "save_loop os (c, f, []) ?its xs = Next (c1, f1, calls1)"
    then have "PermanentCache_SaveTiles os inner c f tiles xs
        = Inr (c1\<lparr>pc_tr := SaveTiles inner (pc_tr c1) tiles xs\<rparr>, f1, calls1)"
      by (simp add: PermanentCache_SaveTiles_def)
    with d w' fr' show ?thesis by simp
  next
    assume "save_loop os (c, f, []) ?its xs = Return (c1, f1, calls1)"
    then have "PermanentCache_SaveTiles os inner c f tiles xs = Inr (c1, f1, calls1)"
      by (simp add: PermanentCache_SaveTiles_def)
    with d w' fr' show ?thesis by simp
  qed
qed

lemma SaveTiles_calls_props:
  assumes fr: "frame os" and len: "\<forall>(tiles, xs)\<in>set bs. length tiles \<le> length xs"
  shows "\<exists>c' f' new. SaveTiles_calls os inner (c, f, calls) bs = Inr (c', f', calls @ new) \<and>
     pc_dir c' = pc_dir c \<and> pc_tilePath c' = pc_tilePath c \<and>
     (\<forall>p d. CallWriteFile p d \<in> set new \<longrightarrow>
        (\<exists>tiles xs i. (tiles, xs) \<in> set bs \<and> i < length tiles \<and>
           H (tiles ! i) = TileHeight \<and> W (tiles ! i) = TileWidth \<and>
           p = Join os (pc_dir c) (pc_tilePath c (tiles ! i)) \<and> d = xs ! i) \<and>
        Stat os f p \<noteq> None) \<and>
     (\<forall>p. Stat os f p = None \<longrightarrow> Stat os f' p = None \<and> ReadFile os f' p = ReadFile os f p)"
  using len
proof (induction bs arbitrary: c f calls)
  case Nil
  show ?case by (intro exI [of _ c] exI [of _ f] exI [of _ "[]"]) simp
next
  case (Cons b bs)
  obtain tiles xs where b: "b = (tiles, xs)" by (cases b)
  with Cons.prems have l1: "length tiles \<le> length xs"
    and l2: "\<forall>(tiles, xs)\<in>set bs. length tiles \<le> length xs" by auto
  from PermanentCache_SaveTiles_once [OF fr l1, of inner c f] obtain c1 f1 calls1 where
    r1: "PermanentCache_SaveTiles os inner c f tiles xs = Inr (c1, f1, calls1)" and
    d1: "pc_dir c1 = pc_dir c" "pc_tilePath c1 = pc_tilePath c" and
    w1: "\<forall>p d. CallWriteFile p d \<in> set calls1 \<longrightarrow>
        (\<exists>i<length tiles. H (tiles ! i) = TileHeight \<and> W (tiles ! i) = TileWidth \<and>
           p = Join os (pc_dir c) (pc_tilePath c (tiles ! i)) \<and> d = xs ! i) \<and>
        Stat os f p \<noteq> None" and
    f1: "\<forall>p. Stat os f p = None \<longrightarrow> Stat os f1 p = None \<and> ReadFile os f1 p = ReadFile os f p"
    by blast
  from Cons.IH [OF l2, of c1 f1 "calls @ calls1"] obtain c2 f2 new2 where
    r2: "SaveTiles_calls os inner (c1, f1, calls @ calls1) bs = Inr (c2, f2, (calls @ calls1) @ new2)" and
    d2: "pc_dir c2 = pc_dir c1" "pc_tilePath c2 = pc_tilePath c1" and
    w2: "\<forall>p d. CallWriteFile p d \<in> set new2 \<longrightarrow>
        (\<exists>tiles xs i. (tiles, xs) \<in> set bs \<and> i < length tiles \<and>
           H (tiles ! i) = TileHeight \<and> W (tiles ! i) = TileWidth \<and>
           p = Join os (pc_dir c1) (pc_tilePath c1 (tiles ! i)) \<and> d = xs ! i) \<and>
        Stat os f1 p \<noteq> None" and
    f2: "\<forall>p. Stat os f1 p = None \<longrightarrow> Stat os f2 p = None \<and> ReadFile os f2 p = ReadFile os f1 p"
    by blast
  have res: "SaveTiles_calls os inner (c, f, calls) (b # bs) = Inr (c2, f2, calls @ (calls1 @ new2))"
    using r1 r2 b by simp
  have w: "\<forall>p d. CallWriteFile p d \<in> set (calls1 @ new2) \<longrightarrow>
        (\<exists>tiles xs i. (tiles, xs) \<in> set (b # bs) \<and> i < length tiles \<and>
           H (tiles ! i) = TileHeight \<and> W (tiles ! i) = TileWidth \<and>
           p = Join os (pc_dir c) (pc_tilePath c (tiles ! i)) \<and> d = xs ! i) \<and>
        Stat os f p \<noteq> None"
  proof (intro allI impI)
    fix p d assume "CallWriteFile p d \<in> set (calls1 @ new2)"
    then consider "CallWriteFile p d \<in> set calls1" | "CallWriteFile p d \<in> set new2" by auto
    then show "(\<exists>tiles xs i. (tiles, xs) \<in> set (b # bs) \<and> i < length tiles \<and>
           H (tiles ! i) = TileHeight \<and> W (tiles ! i) = TileWidth \<and>
           p = Join os (pc_dir c) (pc_tilePath c (tiles ! i)) \<and> d = xs ! i) \<and>
        Stat os f p \<noteq> None"
    proof cases
      case 1
      from w1 [rule_format, OF 1] obtain i where "i < length tiles" "H (tiles ! i) = TileHeight"
        "W (tiles ! i) = TileWidth" "p = Join os (pc_dir c) (pc_tilePath c (tiles ! i))"
        "d = xs ! i" and n1: "Stat os f p \<noteq> None" by blast
      then have "(tiles, xs) \<in> set (b # bs) \<and> i < length tiles \<and>
        H (tiles ! i) = TileHeight \<and> W (tiles ! i) = TileWidth \<and>
        p = Join os (pc_dir c) (pc_tilePath c (tiles ! i)) \<and> d = xs ! i"
        by (simp add: b)
      with n1 show ?thesis by blast
    next
      case 2
      from w2 [rule_format, OF 2]
      have a: "\<exists>tiles xs i. (tiles, xs) \<in> set bs \<and> i < length tiles \<and>
           H (tiles ! i) = TileHeight \<and> W (tiles ! i) = TileWidth \<and>
           p = Join os (pc_dir c1) (pc_tilePath c1 (tiles ! i)) \<and> d = xs ! i"
        and n: "Stat os f1 p \<noteq> None" by simp_all
      have n': "Stat os f p \<noteq> None"
      proof
        assume "Stat os f p = None"
        with f1 have "Stat os f1 p = None" by simp
        with n show False by simp
      qed
      from a obtain tiles' xs' i where "(tiles', xs') \<in> set bs" "i < length tiles'"
        "H (tiles' ! i) = TileHeight" "W (tiles' ! i) = TileWidth"
        "p = Join os (pc_dir c1) (pc_tilePath c1 (tiles' ! i))" "d = xs' ! i" by blast
      then have "(tiles', xs') \<in> set (b # bs) \<and> i < length tiles' \<and>
        H (tiles' ! i) = TileHeight \<and> W (tiles' ! i) = TileWidth \<and>
        p = Join os (pc_dir c) (pc_tilePath c (tiles' ! i)) \<and> d = xs' ! i"
        by (simp add: d1)
      with n' show ?thesis by blast
    qed
  qed
  have fr2: "\<forall>p. Stat os f p = None \<longrightarrow> Stat os f2 p = None \<and> ReadFile os f2 p = ReadFile os f p"
    using f1 f2 by simp
  show ?case
    using res d1 d2 w fr2
    by (intro exI [of _ c2] exI [of _ f2] exI [of _ "calls1 @ new2"]) simp
qed

lemma replay_append: "replay os f (a @ b) = replay os (replay os f a) b"
proof (induction a arbitrary: f)
  case Nil
  show ?case by simp
next
  case (Cons x a)
  then show ?case by (cases x) simp_all
qed

lemma fresh_writes_append:
  "fresh_writes os f (a @ b) \<longleftrightarrow> fresh_writes os f a \<and> fresh_writes os (replay os f a) b"
proof (induction a arbitrary: f)
  case Nil
  show ?case by simp
next
  case (Cons x a)
  then show ?case by (cases x) simp_all
qed

lemma fresh_writes_preserve:
  assumes fr: "frame os"
  shows "fresh_writes os f cs \<Longrightarrow> Stat os f p = None \<Longrightarrow>
    Stat os (replay os f cs) p = None \<and> ReadFile os (replay os f cs) p = ReadFile os f p"
proof (induction cs arbitrary: f)
  case Nil
  then show ?case by simp
next
  case (Cons x cs)
  from fr have mk: "\<And>f q r f'. MkdirAll os f q = (r, f') \<Longrightarrow> Stat os f p = None \<Longrightarrow>
      Stat os f' p = None \<and> ReadFile os f' p = ReadFile os f p"
    unfolding frame_def by blast
  from fr have wr: "\<And>f q d r f'. WriteFile os f q d = (r, f') \<Longrightarrow> Stat os f p = None \<Longrightarrow>
      p \<noteq> q \<Longrightarrow> Stat os f' p = None \<and> ReadFile os f' p = ReadFile os f p"
    unfolding frame_def by blast
  show ?case
  proof (cases x)
    case (CallMkdirAll q)
    obtain r f1 where m: "MkdirAll os f q = (r, f1)" by (cases "MkdirAll os f q")
    from mk [OF m Cons.prems(2)] have s1: "Stat os f1 p = None"
      and r1: "ReadFile os f1 p = ReadFile os f p" by simp_all
    from Cons.prems(1) CallMkdirAll m have "fresh_writes os f1 cs" by simp
    from Cons.IH [OF this s1] r1 CallMkdirAll m show ?thesis by simp
  next
    case (CallWriteFile q d)
    obtain r f1 where m: "WriteFile os f q d = (r, f1)" by (cases "WriteFile os f q d")
    from Cons.prems(1) CallWriteFile m have n: "Stat os f q \<noteq> None"
      and fw: "fresh_writes os f1 cs" by simp_all
    from n Cons.prems(2) have ne: "p \<noteq> q" by auto
    from wr [OF m Cons.prems(2) ne] have s1: "Stat os f1 p = None"
      and r1: "ReadFile os f1 p = ReadFile os f p" by simp_all
    from Cons.IH [OF fw s1] r1 CallWriteFile m show ?thesis by simp
  qed
qed

lemma fresh_writes_drop:
  assumes "fresh_writes os f cs"
  shows "fresh_writes os (replay os f (take k cs)) (drop k cs)"
proof -
  from assms have "fresh_writes os f (take k cs @ drop k cs)" by simp
  then show ?thesis unfolding fresh_writes_append by simp
qed

lemma replay_take_drop: "replay os (replay os f (take k cs)) (drop k cs) = replay os f cs"
proof -
  have "replay os f (take k cs @ drop k cs) = replay os (replay os f (take k cs)) (drop k cs)"
    by (rule replay_append)
  then show ?thesis by simp
qed

lemma fresh_writes_nth:
  assumes "fresh_writes os f cs" and "k < length cs" and "cs ! k = CallWriteFile p d"
  shows "Stat os (replay os f (take k cs)) p \<noteq> None"
proof -
  from assms(2,3) have "drop k cs = CallWriteFile p d # drop (Suc k) cs"
    by (simp add: Cons_nth_drop_Suc [symmetric])
  with fresh_writes_drop [OF assms(1), of k] show ?thesis by simp
qed

lemma replay_take_Suc:
  assumes "k < length cs" and "cs ! k = CallWriteFile p d"
  shows "replay os f (take (Suc k) cs) = snd (WriteFile os (replay os f (take k cs)) p d)"
proof -
  from assms have "take (Suc k) cs = take k cs @ [CallWriteFile p d]"
    by (simp add: take_Suc_conv_app_nth)
  then show ?thesis by (simp add: replay_append)
qed

text \<open>The calls of one iteration, and the file system it leaves.\<close>

lemma save_tile_trace:
  assumes fr: "frame os"
    and r: "save_tile os (c, f, calls) i u xs = Next (c', f', calls') \<or>
            save_tile os (c, f, calls) i u xs = Return (c', f', calls')"
  shows "\<exists>new. calls' = calls @ new \<and> f' = replay os f new \<and> fresh_writes os f new"
proof -
  let ?path = "Join os (pc_dir c) (pc_tilePath c u)"
  from fr have mk: "\<And>f p r f'. MkdirAll os f (Dir os p) = (r, f') \<Longrightarrow> Stat os f p \<noteq> None \<Longrightarrow>
      Stat os f' p \<noteq> None"
    unfolding frame_def by blast
  consider (same) "f' = f" "calls' = calls"
    | (mkdir) r0 where "MkdirAll os f (Dir os ?path) = (r0, f')"
        "calls' = calls @ [CallMkdirAll (Dir os ?path)]"
    | (wrote) f1 d r2 where "Stat os f ?path \<noteq> None" "MkdirAll os f (Dir os ?path) = (None, f1)"
        "WriteFile os f1 ?path d = (r2, f')"
        "calls' = calls @ [CallMkdirAll (Dir os ?path), CallWriteFile ?path d]"
    using r
    by (auto simp: save_tile_def pc_logs_def Let_def
        split: if_splits option.splits prod.splits sum.splits)
  then show ?thesis
  proof cases
    case same
    then show ?thesis by (intro exI [of _ "[]"]) simp
  next
    case mkdir
    then show ?thesis by (intro exI [of _ "[CallMkdirAll (Dir os ?path)]"]) simp
  next
    case wrote
    from mk [OF wrote(2,1)] have "Stat os f1 ?path \<noteq> None" .
    with wrote show ?thesis
      by (intro exI [of _ "[CallMkdirAll (Dir os ?path), CallWriteFile ?path d]"]) simp
  qed
qed

lemma save_loop_trace:
  assumes fr: "frame os"
    and "save_loop os (c, f, calls) its xs = Next (c', f', calls') \<or>
         save_loop os (c, f, calls) its xs = Return (c', f', calls')"
  shows "\<exists>new. calls' = calls @ new \<and> f' = replay os f new \<and> fresh_writes os f new"
  using assms(2)
proof (induction its arbitrary: c f calls)
  case Nil
  then show ?case by (intro exI [of _ "[]"]) simp
next
  case (Cons iu its)
  obtain i u where iu: "iu = (i, u)" by (cases iu)
  show ?case
  proof (cases "save_tile os (c, f, calls) i u xs")
    case (Next st1)
    obtain c1 f1 calls1 where st1: "st1 = (c1, f1, calls1)" by (cases st1)
    from Next st1 have t: "save_tile os (c, f, calls) i u xs = Next (c1, f1, calls1) \<or>
        save_tile os (c, f, calls) i u xs = Return (c1, f1, calls1)" by simp
    from save_tile_trace [OF fr t] obtain new1 where
      n1: "calls1 = calls @ new1" and g1: "f1 = replay os f new1"
      and w1: "fresh_writes os f new1" by blast
    from Cons.prems Next st1 iu
    have l: "save_loop os (c1, f1, calls1) its xs = Next (c', f', calls') \<or>
          save_loop os (c1, f1, calls1) its xs = Return (c', f', calls')" by simp
    from Cons.IH [OF l] obtain new2 where
      n2: "calls' = calls1 @ new2" and g2: "f' = replay os f1 new2"
      and w2: "fresh_writes os f1 new2" by blast
    from n1 n2 g1 g2 w1 w2 show ?thesis
      by (intro exI [of _ "new1 @ new2"]) (simp add: replay_append fresh_writes_append)
  next
    case (Return st1)
    from Cons.prems Return iu have e: "st1 = (c', f', calls')" by simp
    with Return have t: "save_tile os (c, f, calls) i u xs = Next (c', f', calls') \<or>
        save_tile os (c, f, calls) i u xs = Return (c', f', calls')" by simp
    from save_tile_trace [OF fr t] show ?thesis .
  next
    case (Panicked q)
    with Cons.prems iu show ?thesis by simp
  qed
qed

lemma PermanentCache_SaveTiles_trace:
  assumes fr: "frame os"
    and r: "PermanentCache_SaveTiles os inner c f tiles xs = Inr (c', f', calls')"
  shows "f' = replay os f calls' \<and> fresh_writes os f calls'"
proof (cases "save_loop os (c, f, []) (enumerate 0 tiles) xs")
  case (Next st1)
  obtain c1 f1 calls1 where st1: "st1 = (c1, f1, calls1)" by (cases st1)
  from Next st1 r have e: "f' = f1" "calls' = calls1"
    by (simp_all add: PermanentCache_SaveTiles_def)
  from Next st1 have "save_loop os (c, f, []) (enumerate 0 tiles) xs = Next (c1, f1, calls1) \<or>
      save_loop os (c, f, []) (enumerate 0 tiles) xs = Return (c1, f1, calls1)" by simp
  from save_loop_trace [OF fr this] e show ?thesis by simp
next
  case (Return st1)
  obtain c1 f1 calls1 where st1: "st1 = (c1, f1, calls1)" by (cases st1)
  from Return st1 r have e: "f' = f1" "calls' = calls1"
    by (simp_all add: PermanentCache_SaveTiles_def)
  from Return st1 have "save_loop os (c, f, []) (enumerate 0 tiles) xs = Next (c1, f1, calls1) \<or>
      save_loop os (c, f, []) (enumerate 0 tiles) xs = Return (c1, f1, calls1)" by simp
  from save_loop_trace [OF fr this] e show ?thesis by simp
next
  case (Panicked q)
  with r show ?thesis by (simp add: PermanentCache_SaveTiles_def)
qed

lemma SaveTiles_calls_trace:
  assumes fr: "frame os"
  shows "SaveTiles_calls os inner (c, f, calls) bs = Inr (c', f', calls') \<Longrightarrow>
    \<exists>new. calls' = calls @ new \<and> f' = replay os f new \<and> fresh_writes os f new"
proof (induction bs arbitrary: c f calls)
  case Nil
  then show ?case by (intro exI [of _ "[]"]) simp
next
  case (Cons b bs)
  obtain tiles xs where b: "b = (tiles, xs)" by (cases b)
  show ?case
  proof (cases "PermanentCache_SaveTiles os inner c f tiles xs")
    case (Inl q)
    with Cons.prems b show ?thesis by simp
  next
    case (Inr st1)
    obtain c1 f1 calls1 where st1: "st1 = (c1, f1, calls1)" by (cases st1)
    from Inr st1 have r1: "PermanentCache_SaveTiles os inner c f tiles xs = Inr (c1, f1, calls1)"
      by simp
    from PermanentCache_SaveTiles_trace [OF fr r1]
    have g1: "f1 = replay os f calls1" and w1: "fresh_writes os f calls1" by simp_all
    from Cons.prems b r1
    have "SaveTiles_calls os inner (c1, f1, calls @ calls1) bs = Inr (c', f', calls')" by simp
    from Cons.IH [OF this] obtain new2 where
      n2: "calls' = (calls @ calls1) @ new2" and g2: "f' = replay os f1 new2"
      and w2: "fresh_writes os f1 new2" by blast
    from n2 g1 g2 w1 w2 show ?thesis
      by (intro exI [of _ "calls1 @ new2"]) (simp add: replay_append fresh_writes_append)
  qed
qed

text \<open>
  C4. Over a file system in which creating directories and writing another path leave an
  existing path in place, creating the directory of a missing path does not create the path,
  and a write without error leaves the path with the bytes written, any sequence of calls of
  \<^verbatim>\<open>PermanentCache.SaveTiles\<close> (each with bytes for every descriptor) returns, and of the calls
  \<open>calls'\<close> it makes to the file system, in their order:

    \<^item> every \<^verbatim>\<open>os.WriteFile\<close> is for a descriptor of one of the calls whose height is the tile
      height and whose width is the full width \<open>2^H\<close> (never for a narrower one), at the path
      of that descriptor and with its bytes;

    \<^item> every \<^verbatim>\<open>os.WriteFile\<close> is at a path that does not exist at the time of the write, that
      is in the file system left by the calls before it, nor before the sequence;

    \<^item> when an \<^verbatim>\<open>os.WriteFile\<close> returns no error, its path exists after the sequence and
      holds the bytes of that write;

    \<^item> every path that exists at some time, before the sequence or after any of the calls,
      still exists after the sequence with the content it had at that time.
\<close>

theorem PermanentCache_SaveTiles_full_tiles_once:
  assumes "frame os" and "\<forall>(tiles, xs)\<in>set bs. length tiles \<le> length xs"
  shows "\<exists>c' f' calls'. SaveTiles_calls os inner (c, f, []) bs = Inr (c', f', calls') \<and>
     f' = replay os f calls' \<and>
     (\<forall>k p d. k < length calls' \<and> calls' ! k = CallWriteFile p d \<longrightarrow>
        (\<exists>tiles xs i. (tiles, xs) \<in> set bs \<and> i < length tiles \<and>
           W (tiles ! i) = 2 ^ nat (H (tiles ! i)) \<and> W (tiles ! i) = TileWidth \<and>
           p = Join os (pc_dir c) (pc_tilePath c (tiles ! i)) \<and> d = xs ! i) \<and>
        Stat os f p \<noteq> None \<and>
        Stat os (replay os f (take k calls')) p \<noteq> None \<and>
        (fst (WriteFile os (replay os f (take k calls')) p d) = None \<longrightarrow>
           Stat os f' p = None \<and> ReadFile os f' p = Inr d)) \<and>
     (\<forall>k p. k \<le> length calls' \<and> Stat os (replay os f (take k calls')) p = None \<longrightarrow>
        Stat os f' p = None \<and> ReadFile os f' p = ReadFile os (replay os f (take k calls')) p)"
proof -
  note fr = assms(1)
  from SaveTiles_calls_props [OF assms, of inner c f "[]"] obtain c' f' new where
    r: "SaveTiles_calls os inner (c, f, []) bs = Inr (c', f', new)" and
    w: "\<forall>p d. CallWriteFile p d \<in> set new \<longrightarrow>
        (\<exists>tiles xs i. (tiles, xs) \<in> set bs \<and> i < length tiles \<and>
           H (tiles ! i) = TileHeight \<and> W (tiles ! i) = TileWidth \<and>
           p = Join os (pc_dir c) (pc_tilePath c (tiles ! i)) \<and> d = xs ! i) \<and>
        Stat os f p \<noteq> None"
    by auto
  from SaveTiles_calls_trace [OF fr r] have g: "f' = replay os f new"
    and fw: "fresh_writes os f new" by simp_all
  have pw: "\<And>u. H u = TileHeight \<Longrightarrow> W u = TileWidth \<Longrightarrow> W u = 2 ^ nat (H u)"
    by (simp add: TileHeight_def TileWidth_def)
  have keep: "Stat os f' p = None \<and> ReadFile os f' p = ReadFile os (replay os f (take k new)) p"
    if "Stat os (replay os f (take k new)) p = None" for k p
  proof -
    from fresh_writes_preserve [OF fr fresh_writes_drop [OF fw, of k] that]
    show ?thesis unfolding replay_take_drop g .
  qed
  have writes: "(\<exists>tiles xs i. (tiles, xs) \<in> set bs \<and> i < length tiles \<and>
           W (tiles ! i) = 2 ^ nat (H (tiles ! i)) \<and> W (tiles ! i) = TileWidth \<and>
           p = Join os (pc_dir c) (pc_tilePath c (tiles ! i)) \<and> d = xs ! i) \<and>
        Stat os f p \<noteq> None \<and>
        Stat os (replay os f (take k new)) p \<noteq> None \<and>
        (fst (WriteFile os (replay os f (take k new)) p d) = None \<longrightarrow>
           Stat os f' p = None \<and> ReadFile os f' p = Inr d)"
    if k: "k < length new" and e: "new ! k = CallWriteFile p d" for k p d
  proof -
    from k e have cw: "CallWriteFile p d \<in> set new" by (metis nth_mem)
    from w [rule_format, OF cw] obtain tiles xs i where t: "(tiles, xs) \<in> set bs" "i < length tiles"
      "H (tiles ! i) = TileHeight" "W (tiles ! i) = TileWidth"
      "p = Join os (pc_dir c) (pc_tilePath c (tiles ! i))" "d = xs ! i" and n: "Stat os f p \<noteq> None"
      by blast
    from t pw [of "tiles ! i"] have a: "\<exists>tiles xs i. (tiles, xs) \<in> set bs \<and> i < length tiles \<and>
           W (tiles ! i) = 2 ^ nat (H (tiles ! i)) \<and> W (tiles ! i) = TileWidth \<and>
           p = Join os (pc_dir c) (pc_tilePath c (tiles ! i)) \<and> d = xs ! i"
      by blast
    from fresh_writes_nth [OF fw k e] have b: "Stat os (replay os f (take k new)) p \<noteq> None" .
    have s: "Stat os f' p = None \<and> ReadFile os f' p = Inr d"
      if ok: "fst (WriteFile os (replay os f (take k new)) p d) = None"
    proof -
      let ?g = "replay os f (take k new)"
      from ok have wf: "WriteFile os ?g p d = (None, snd (WriteFile os ?g p d))"
        by (metis prod.collapse)
      from fr have "\<And>f p d f'. WriteFile os f p d = (None, f') \<Longrightarrow>
          Stat os f' p = None \<and> ReadFile os f' p = Inr d"
        unfolding frame_def by blast
      from this [OF wf] have "Stat os (replay os f (take (Suc k) new)) p = None"
        and rd: "ReadFile os (replay os f (take (Suc k) new)) p = Inr d"
        unfolding replay_take_Suc [OF k e] by simp_all
      from keep [OF this(1)] rd show ?thesis by simp
    qed
    from s have s': "fst (WriteFile os (replay os f (take k new)) p d) = None \<longrightarrow>
           Stat os f' p = None \<and> ReadFile os f' p = Inr d" by (rule impI)
    from a n b s' show ?thesis by (intro conjI)
  qed
  have w': "\<forall>k p d. k < length new \<and> new ! k = CallWriteFile p d \<longrightarrow>
        (\<exists>tiles xs i. (tiles, xs) \<in> set bs \<and> i < length tiles \<and>
           W (tiles ! i) = 2 ^ nat (H (tiles ! i)) \<and> W (tiles ! i) = TileWidth \<and>
           p = Join os (pc_dir c) (pc_tilePath c (tiles ! i)) \<and> d = xs ! i) \<and>
        Stat os f p \<noteq> None \<and>
        Stat os (replay os f (take k new)) p \<noteq> None \<and>
        (fst (WriteFile os (replay os f (take k new)) p d) = None \<longrightarrow>
           Stat os f' p = None \<and> ReadFile os f' p = Inr d)"
    using writes by blast
  have k': "\<forall>k p. k \<le> length new \<and> Stat os (replay os f (take k new)) p = None \<longrightarrow>
        Stat os f' p = None \<and> ReadFile os f' p = ReadFile os (replay os f (take k new)) p"
    using keep by blast
  from r g w' k' show ?thesis
    by (intro exI [of _ c'] exI [of _ f'] exI [of _ new] conjI)
qed

lemma frame_list_os: "frame (list_os mk wr)"
  by (auto simp: frame_def list_os_def split: option.splits)

theorem PermanentCache_SaveTiles_full_tiles_once_witness:
  "frame (list_os None None) \<and>
   (\<exists>c' f'. SaveTiles_calls (list_os None None) recording_source
        (\<lparr>pc_tr = [], pc_dir = ''c'', pc_tilePath = (\<lambda>u. if N u = 0 then ''a'' else ''b''),
          pc_log = []\<rparr>, [(''c/a'', [7])], [])
        [([\<lparr>H = 8, L = - 1, N = 0, W = 256\<rparr>, \<lparr>H = 8, L = - 1, N = 1, W = 44\<rparr>], [[1], [2]]),
         ([\<lparr>H = 8, L = - 1, N = 1, W = 256\<rparr>], [[3]]),
         ([\<lparr>H = 8, L = - 1, N = 1, W = 256\<rparr>], [[9]])]
      = Inr (c', f', [CallMkdirAll ''c'', CallWriteFile ''c/b'' [3]]) \<and>
      ReadFile (list_os None None) f' ''c/a'' = Inr [7] \<and>
      ReadFile (list_os None None) f' ''c/b'' = Inr [3])"
proof -
  let ?os = "list_os None None"
  let ?c = "\<lparr>pc_tr = [], pc_dir = ''c'', pc_tilePath = (\<lambda>u. if N u = 0 then ''a'' else ''b''),
          pc_log = []\<rparr> :: ((Tile list \<times> bytes list) list, string) PermanentCache"
  let ?f = "[(''c/a'', [7])] :: (string \<times> bytes) list"
  let ?bs = "[([\<lparr>H = 8, L = - 1, N = 0, W = 256\<rparr>, \<lparr>H = 8, L = - 1, N = 1, W = 44\<rparr>], [[1], [2]]),
         ([\<lparr>H = 8, L = - 1, N = 1, W = 256\<rparr>], [[3]]),
         ([\<lparr>H = 8, L = - 1, N = 1, W = 256\<rparr>], [[9]])] :: (Tile list \<times> bytes list) list"
  let ?cs = "[CallMkdirAll ''c'', CallWriteFile ''c/b'' [3]]"
  have fr: "frame ?os" by (rule frame_list_os)
  have len: "\<forall>(tiles, xs)\<in>set ?bs. length tiles \<le> length xs" by simp
  from PermanentCache_SaveTiles_full_tiles_once [OF fr len, of recording_source ?c ?f]
  obtain c' f' calls' where
    r: "SaveTiles_calls ?os recording_source (?c, ?f, []) ?bs = Inr (c', f', calls')" and
    w: "\<forall>k p d. k < length calls' \<and> calls' ! k = CallWriteFile p d \<longrightarrow>
        (\<exists>tiles xs i. (tiles, xs) \<in> set ?bs \<and> i < length tiles \<and>
           W (tiles ! i) = 2 ^ nat (H (tiles ! i)) \<and> W (tiles ! i) = TileWidth \<and>
           p = Join ?os (pc_dir ?c) (pc_tilePath ?c (tiles ! i)) \<and> d = xs ! i) \<and>
        Stat ?os ?f p \<noteq> None \<and>
        Stat ?os (replay ?os ?f (take k calls')) p \<noteq> None \<and>
        (fst (WriteFile ?os (replay ?os ?f (take k calls')) p d) = None \<longrightarrow>
           Stat ?os f' p = None \<and> ReadFile ?os f' p = Inr d)" and
    k: "\<forall>k p. k \<le> length calls' \<and> Stat ?os (replay ?os ?f (take k calls')) p = None \<longrightarrow>
        Stat ?os f' p = None \<and> ReadFile ?os f' p = ReadFile ?os (replay ?os ?f (take k calls')) p"
    by blast
  have "\<exists>c1 f1. SaveTiles_calls ?os recording_source (?c, ?f, []) ?bs = Inr (c1, f1, ?cs)"
    by (simp add: PermanentCache_SaveTiles_def save_tile_def list_os_def recording_source_def
        pc_logs_def at_def TileHeight_def TileWidth_def Let_def)
  with r have cs: "calls' = ?cs" by auto
  have "Stat ?os (replay ?os ?f (take 0 calls')) ''c/a'' = None" by (simp add: list_os_def)
  with k [rule_format, of 0 "''c/a''"]
  have "ReadFile ?os f' ''c/a'' = ReadFile ?os (replay ?os ?f (take 0 calls')) ''c/a''" by simp
  then have old: "ReadFile ?os f' ''c/a'' = Inr [7]" by (simp add: list_os_def)
  have "fst (WriteFile ?os (replay ?os ?f (take 1 calls')) ''c/b'' [3]) = None"
    by (simp add: list_os_def)
  with w [rule_format, of 1 "''c/b''" "[3]"] cs
  have new: "ReadFile ?os f' ''c/b'' = Inr [3]" by simp
  from r cs old new fr show ?thesis by blast
qed

text \<open>
  When no \<^verbatim>\<open>os.MkdirAll\<close> fails, \<^verbatim>\<open>SaveTiles\<close> hands the complete lists to the inner tile
  source, also when writing a file fails.
\<close>

lemma save_tile_Next:
  assumes "\<forall>f q. fst (MkdirAll os f q) = None" and "i < length xs"
  shows "\<exists>c' f' calls'. save_tile os (c, f, calls) i u xs = Next (c', f', calls') \<and>
           pc_tr c' = pc_tr c"
proof -
  have mk: "\<And>f q e f'. MkdirAll os f q \<noteq> (Some e, f')"
  proof
    fix f q e f' assume "MkdirAll os f q = (Some e, f')"
    then have "fst (MkdirAll os f q) = Some e" by simp
    with assms(1) show False by simp
  qed
  show ?thesis
    using assms(2) mk
    by (auto simp: save_tile_def pc_logs_def Let_def at_def
        split: if_splits option.splits prod.splits)
qed

lemma save_loop_Next:
  assumes "\<forall>f q. fst (MkdirAll os f q) = None" and "\<forall>(i, u)\<in>set its. i < length xs"
  shows "\<exists>c' f' calls'. save_loop os (c, f, calls) its xs = Next (c', f', calls') \<and>
           pc_tr c' = pc_tr c"
  using assms(2)
proof (induction its arbitrary: c f calls)
  case Nil
  then show ?case by simp
next
  case (Cons iu its)
  obtain i u where iu: "iu = (i, u)" by (cases iu)
  with Cons.prems have i: "i < length xs" and rest: "\<forall>(i, u)\<in>set its. i < length xs"
    by auto
  from save_tile_Next [OF assms(1) i, of c f calls u] obtain c1 f1 calls1 where
    t: "save_tile os (c, f, calls) i u xs = Next (c1, f1, calls1)" and tr: "pc_tr c1 = pc_tr c"
    by blast
  from Cons.IH [OF rest, of c1 f1 calls1] obtain c' f' calls' where
    "save_loop os (c1, f1, calls1) its xs = Next (c', f', calls')" "pc_tr c' = pc_tr c1"
    by blast
  with t tr iu show ?case by simp
qed

lemma PermanentCache_SaveTiles_forwards:
  assumes "\<forall>f q. fst (MkdirAll os f q) = None" and "length tiles \<le> length xs"
  shows "\<exists>c' f' calls'. PermanentCache_SaveTiles os inner c f tiles xs = Inr (c', f', calls') \<and>
           pc_tr c' = SaveTiles inner (pc_tr c) tiles xs"
proof -
  from assms(2) have "\<forall>(i, u)\<in>set (enumerate 0 tiles). i < length xs"
    by (auto simp: in_set_enumerate_eq)
  from save_loop_Next [OF assms(1) this, of c f "[]"] obtain c1 f1 calls1 where
    "save_loop os (c, f, []) (enumerate 0 tiles) xs = Next (c1, f1, calls1)" "pc_tr c1 = pc_tr c"
    by blast
  then show ?thesis by (simp add: PermanentCache_SaveTiles_def)
qed

text \<open>
  C5. \<^verbatim>\<open>PermanentCache.SaveTiles\<close> returns nothing, so no error reaches its caller; but when
  \<^verbatim>\<open>os.MkdirAll\<close> fails the loop returns from the function, and the inner tile source's
  \<^verbatim>\<open>SaveTiles\<close> is not called. Here one full tile is saved into a cache whose directory
  cannot be created: the failure is logged and the inner tile source, which records the calls
  of its \<^verbatim>\<open>SaveTiles\<close>, has recorded none. (A failed \<^verbatim>\<open>os.WriteFile\<close> is only logged, and the
  lists are forwarded: \<open>PermanentCache_SaveTiles_forwards\<close>.)
\<close>

theorem PermanentCache_SaveTiles_mkdir_failure:
  "\<exists>c' f' calls'.
     PermanentCache_SaveTiles (list_os (Some ''permission denied'') None) recording_source
        \<lparr>pc_tr = [], pc_dir = ''c'', pc_tilePath = (\<lambda>u. ''a''), pc_log = []\<rparr> []
        [\<lparr>H = 8, L = - 1, N = 0, W = 256\<rparr>] [[1]] = Inr (c', f', calls') \<and>
     pc_tr c' = [] \<and>
     pc_log c' = [FailedToCreateDirectory ''c/a'' ''permission denied''] \<and>
     calls' = [CallMkdirAll ''c'']"
  by (simp add: PermanentCache_SaveTiles_def save_tile_def list_os_def recording_source_def
      pc_logs_def at_def TileHeight_def TileWidth_def Let_def)

subsection \<open>The tile fetcher\<close>







lemma wrap64_id: "- (2 ^ 63) \<le> x \<Longrightarrow> x < 2 ^ 63 \<Longrightarrow> wrap64 x = x"
  by (simp add: wrap64_def)





subsection \<open>Termination of the outer loop of \<^verbatim>\<open>Client.Entries\<close>\<close>

lemma TileWidth_pos: "0 < TileWidth"
  by (simp add: TileWidth_def)

lemma quot_nonneg: "0 \<le> a \<Longrightarrow> quot a TileWidth = a div TileWidth"
  by (cases "a = 0") (simp_all add: quot_def TileWidth_def)

lemma quot_neg: "a < 0 \<Longrightarrow> quot a TileWidth = - ((- a) div TileWidth)"
  by (simp add: quot_def TileWidth_def)

lemma quot_exact: "TileWidth dvd a \<Longrightarrow> quot a TileWidth * TileWidth = a"
proof (cases "0 \<le> a")
  case True
  assume "TileWidth dvd a"
  with True show ?thesis by (simp add: quot_nonneg)
next
  case False
  assume "TileWidth dvd a"
  then have "TileWidth dvd - a" by simp
  then have "(- a) div TileWidth * TileWidth = - a" by (rule dvd_div_mult_self)
  with False show ?thesis by (simp add: quot_neg)
qed

lemma quot_lower: "a < quot a TileWidth * TileWidth + TileWidth"
proof (cases "0 \<le> a")
  case True
  have "a = a div TileWidth * TileWidth + a mod TileWidth" by simp
  moreover have "a mod TileWidth < TileWidth" using TileWidth_pos by simp
  ultimately have "a < a div TileWidth * TileWidth + TileWidth" by linarith
  with True show ?thesis by (simp add: quot_nonneg)
next
  case False
  have "- a = (- a) div TileWidth * TileWidth + (- a) mod TileWidth" by simp
  moreover have "0 \<le> (- a) mod TileWidth" using TileWidth_pos by simp
  ultimately have "(- a) div TileWidth * TileWidth \<le> - a" by linarith
  with False TileWidth_pos show ?thesis by (simp add: quot_neg)
qed

lemma quot_upper_nonneg: "0 \<le> a \<Longrightarrow> quot a TileWidth * TileWidth \<le> a"
proof -
  assume a: "0 \<le> a"
  have "a = a div TileWidth * TileWidth + a mod TileWidth" by simp
  moreover have "0 \<le> a mod TileWidth" using TileWidth_pos by simp
  ultimately have "a div TileWidth * TileWidth \<le> a" by linarith
  with a show ?thesis by (simp add: quot_nonneg)
qed

lemma poll_start: "poll w st = (r, st1) \<Longrightarrow> it_start st1 = it_start st"
  by (auto simp: poll_def)

lemma entry_step_Z_start:
  "entry_step_Z w c hashes base tN i d st = (r, st') \<Longrightarrow> it_start st' = it_start st"
  by (auto simp: entry_step_Z_def poll_def Let_def
      split: option.splits sum.splits prod.splits if_splits)

lemma entries_loop_Z_start:
  "entries_loop_Z w c hashes base tN is d st = (r, st') \<Longrightarrow> it_start st' = it_start st"
proof (induction "is" arbitrary: d st)
  case Nil
  then show ?case by simp
next
  case (Cons i "is")
  obtain r1 st1 where s: "entry_step_Z w c hashes base tN i d st = (r1, st1)"
    by (cases "entry_step_Z w c hashes base tN i d st")
  from entry_step_Z_start [OF s] have e: "it_start st1 = it_start st" .
  show ?case
  proof (cases r1)
    case (Inl ex)
    with Cons.prems s e show ?thesis by simp
  next
    case (Inr rest)
    with Cons.prems s have "entries_loop_Z w c hashes base tN is rest st1 = (r, st')" by simp
    from Cons.IH [OF this] e show ?thesis by simp
  qed
qed

lemma tile_step_Z_start:
  "tile_step_Z w c hashes base tdata ti u st = (Inr v, st') \<Longrightarrow>
     it_start st' = N u * TileWidth + W u"
  by (auto simp: tile_step_Z_def Let_def split: sum.splits prod.splits if_splits)

lemma tiles_loop_Z_start:
  "tiles_loop_Z w c hashes base tdata its st = (Inr v, st') \<Longrightarrow> its \<noteq> [] \<Longrightarrow>
     it_start st' = N (snd (last its)) * TileWidth + W (snd (last its))"
proof (induction its arbitrary: st)
  case Nil
  then show ?case by simp
next
  case (Cons a its)
  obtain ti u where a: "a = (ti, u)" by (cases a)
  obtain r1 st1 where s: "tile_step_Z w c hashes base tdata ti u st = (r1, st1)"
    by (cases "tile_step_Z w c hashes base tdata ti u st")
  show ?case
  proof (cases r1)
    case (Inl ex)
    with Cons.prems s a show ?thesis by simp
  next
    case (Inr v1)
    with Cons.prems s a have l: "tiles_loop_Z w c hashes base tdata its st1 = (Inr v, st')" by simp
    show ?thesis
    proof (cases "its = []")
      case True
      with l have "st' = st1" by simp
      with tile_step_Z_start [of w c hashes base tdata ti u st v1 st1] s Inr True a
      show ?thesis by simp
    next
      case False
      from Cons.IH [OF l False] False show ?thesis by simp
    qed
  qed
qed

text \<open>The tiles of a batch end at \<open>top'\<close> at most, and a tile that ends before is full.\<close>

lemma batch_tiles_Z_end:
  assumes "u \<in> set (batch_tiles_Z base top' is)" and "TileWidth dvd base"
  shows "N u * TileWidth + W u \<le> top' \<and>
         (N u * TileWidth + W u \<noteq> top' \<longrightarrow> base + TileWidth \<le> N u * TileWidth + W u)"
  using assms(1)
proof (induction "is")
  case Nil
  then show ?case by simp
next
  case (Cons i "is")
  let ?s = "base + int i * TileWidth"
  from assms(2) have "TileWidth dvd ?s" by simp
  then have q: "quot ?s TileWidth * TileWidth = ?s" by (rule quot_exact)
  show ?case
  proof (cases "?s \<ge> top'")
    case True
    with Cons.prems show ?thesis by simp
  next
    case False
    let ?e = "if ?s + TileWidth > top' then top' else ?s + TileWidth"
    let ?u = "\<lparr>H = TileHeight, L = - 1, N = quot ?s TileWidth, W = ?e - ?s\<rparr>"
    from False Cons.prems have "u = ?u \<or> u \<in> set (batch_tiles_Z base top' is)"
      by (simp add: Let_def)
    then show ?thesis
    proof
      assume u: "u = ?u"
      have nw: "N ?u * TileWidth + W ?u = ?e" using q by simp
      have i0: "0 \<le> int i * TileWidth" using TileWidth_pos by simp
      show ?thesis
      proof (cases "?s + TileWidth > top'")
        case True
        then have "?e = top'" by simp
        with nw show ?thesis unfolding u by simp
      next
        case f: False
        then have "?e = ?s + TileWidth" by simp
        with nw have "N ?u * TileWidth + W ?u = ?s + TileWidth" by simp
        moreover from f have "?s + TileWidth \<le> top'" by simp
        moreover from i0 have "base + TileWidth \<le> ?s + TileWidth" by simp
        ultimately show ?thesis unfolding u by simp
      qed
    next
      assume "u \<in> set (batch_tiles_Z base top' is)"
      then show ?thesis by (rule Cons.IH)
    qed
  qed
qed

lemma snd_last_enumerate: "xs \<noteq> [] \<Longrightarrow> snd (last (enumerate n xs)) = last xs"
proof -
  assume ne: "xs \<noteq> []"
  then have "enumerate n xs \<noteq> []" by (cases xs) simp_all
  from last_map [OF this, of snd] show ?thesis by simp
qed

lemma Entries_batch_Z_progress:
  assumes "Entries_batch_Z w c tree st = (Inr top', st')"
  shows "top' = batch_top_Z tree (quot (it_start st) TileWidth * TileWidth) \<and>
         it_start st' \<le> top' \<and> (it_start st' \<noteq> top' \<longrightarrow> it_start st < it_start st')"
proof -
  obtain r0 st1 where p: "poll w st = (r0, st1)" by (cases "poll w st")
  from poll_start [OF p] have s1: "it_start st1 = it_start st" .
  let ?base = "quot (it_start st) TileWidth * TileWidth"
  let ?top = "batch_top_Z tree ?base"
  let ?tiles = "batch_tiles_Z ?base ?top [0..<50]"
  have b1: "quot (it_start st1) TileWidth * TileWidth = ?base" using s1 by simp
  from assms p have r0: "r0 = None"
    by (cases r0) (simp_all add: Entries_batch_Z_def)
  have ne: "?tiles \<noteq> []"
  proof
    assume "?tiles = []"
    with assms p r0 b1 show False by (simp add: Entries_batch_Z_def Let_def)
  qed
  obtain rt s1' where rt: "ReadTiles (reader w) (it_src st1) ?tiles = (rt, s1')"
    by (cases "ReadTiles (reader w) (it_src st1) ?tiles")
  from assms p r0 b1 ne rt obtain tdata where tdata: "rt = Inr tdata"
    by (cases rt) (simp_all add: Entries_batch_Z_def Let_def)
  obtain rh s2 where rh: "ReadHashes w s1' tree (batch_indexes_Z w ?tiles) = (rh, s2)"
    by (cases "ReadHashes w s1' tree (batch_indexes_Z w ?tiles)")
  from assms p r0 b1 ne rt tdata rh obtain hashes where hashes: "rh = Inr hashes"
    by (cases rh) (simp_all add: Entries_batch_Z_def Let_def)
  obtain rl st2 where
    rl: "tiles_loop_Z w c hashes ?base tdata (enumerate 0 ?tiles) (st1\<lparr>it_src := s2\<rparr>) = (rl, st2)"
    by (cases "tiles_loop_Z w c hashes ?base tdata (enumerate 0 ?tiles) (st1\<lparr>it_src := s2\<rparr>)")
  from assms p r0 b1 ne rt tdata rh hashes rl obtain v where v: "rl = Inr v"
    by (cases rl) (simp_all add: Entries_batch_Z_def Let_def)
  from rl v have
    tl: "tiles_loop_Z w c hashes ?base tdata (enumerate 0 ?tiles) (st1\<lparr>it_src := s2\<rparr>) = (Inr v, st2)"
    by simp
  from assms p r0 b1 ne rt tdata rh hashes tl have
    st': "st' = st2\<lparr>it_src := SaveTiles (reader w) (it_src st2) ?tiles tdata\<rparr>" and
    top: "top' = ?top"
    by (auto simp: Entries_batch_Z_def Let_def)
  from ne have ne': "enumerate 0 ?tiles \<noteq> []" by (cases ?tiles) simp_all
  have l: "snd (last (enumerate 0 ?tiles)) = last ?tiles"
    using ne by (rule snd_last_enumerate)
  from tiles_loop_Z_start [OF tl ne'] l
  have e: "it_start st2 = N (last ?tiles) * TileWidth + W (last ?tiles)" by simp
  have "last ?tiles \<in> set ?tiles" using ne by simp
  from batch_tiles_Z_end [OF this] have
    "N (last ?tiles) * TileWidth + W (last ?tiles) \<le> ?top \<and>
     (N (last ?tiles) * TileWidth + W (last ?tiles) \<noteq> ?top \<longrightarrow>
        ?base + TileWidth \<le> N (last ?tiles) * TileWidth + W (last ?tiles))"
    by simp
  then have le: "it_start st2 \<le> ?top"
    and ge: "it_start st2 \<noteq> ?top \<Longrightarrow> ?base + TileWidth \<le> it_start st2"
    using e by simp_all
  have s': "it_start st' = it_start st2" using st' by simp
  have "it_start st' \<noteq> top' \<longrightarrow> it_start st < it_start st'"
  proof
    assume "it_start st' \<noteq> top'"
    with s' top have "it_start st2 \<noteq> ?top" by simp
    from ge [OF this] quot_lower [of "it_start st"] s' show "it_start st < it_start st'"
      by linarith
  qed
  with le s' top show ?thesis by simp
qed

lemma batch_top_Z_le: "batch_top_Z tree base \<le> max (tree_N tree) (quot (tree_N tree) TileWidth * TileWidth)"
  by (simp add: batch_top_Z_def Let_def)

termination Entries_loop_Z
proof (relation "measure (\<lambda>(w, c, tree, st).
    nat (max (tree_N tree) (quot (tree_N tree) TileWidth * TileWidth) - it_start st))")
  show "wf (measure (\<lambda>(w, c, tree, st).
    nat (max (tree_N tree) (quot (tree_N tree) TileWidth * TileWidth) - it_start st)))"
    by simp
next
  fix w :: "('s, 'x, 'h) world" and c :: "('s, 'x, 'h) Client" and tree :: "'h Tree"
    and st :: "'s iter" and x st' top'
  assume "(x, st') = Entries_batch_Z w c tree st" and "x = Inr top'" and "it_start st' \<noteq> top'"
  then have b: "Entries_batch_Z w c tree st = (Inr top', st')" by simp
  note pr = Entries_batch_Z_progress [OF b]
  from pr \<open>it_start st' \<noteq> top'\<close> have lt: "it_start st < it_start st'" by simp
  from pr have "top' \<le> max (tree_N tree) (quot (tree_N tree) TileWidth * TileWidth)"
    using batch_top_Z_le [of tree "quot (it_start st) TileWidth * TileWidth"] by simp
  moreover from pr \<open>it_start st' \<noteq> top'\<close> have "it_start st' < top'" by simp
  ultimately have "it_start st' < max (tree_N tree) (quot (tree_N tree) TileWidth * TileWidth)"
    by linarith
  note lt this
  then show "((w, c, tree, st'), (w, c, tree, st)) \<in> measure (\<lambda>(w, c, tree, st).
    nat (max (tree_N tree) (quot (tree_N tree) TileWidth * TileWidth) - it_start st))"
    by simp
qed

declare Entries_loop_Z.simps [simp del]

subsection \<open>The parts of \<^verbatim>\<open>Client.Entries\<close>, case by case\<close>

lemma poll_eq: "poll w st = (ctxErr w (it_polls st), st\<lparr>it_polls := Suc (it_polls st)\<rparr>)"
  by (simp add: poll_def)

text \<open>The seven ways through the body of the loop over the entries of a tile.\<close>

lemma entry_step_Z_cases:
  fixes w :: "('s, 'x, 'h) world" and st :: "'s iter" and d :: bytes
  defines "st1 \<equiv> st\<lparr>it_polls := Suc (it_polls st)\<rparr>"
  defines "st2 \<equiv> st\<lparr>it_polls := Suc (it_polls st), it_cuts := it_cuts st @ [d]\<rparr>"
  assumes r: "entry_step_Z w c hashes base tN i d st = (r, st')"
  obtains
    (ctx) e where "r = Inl (Returns (Some (ContextDone e)))" "st' = st1"
  | (eod) "d = []" "r = Inl (Returns (Some (EndOfTileData tN)))" "st' = st1"
  | (cutfail) e where "d \<noteq> []" "c_cut c d = Inl e"
      "r = Inl (Returns (Some (CutFailed i e)))" "st' = st2"
  | (panics) entry rh rest p where "d \<noteq> []" "c_cut c d = Inr (entry, rh, rest)"
      "at_int hashes (i - base) = Inl p" "r = Inl (Panics p)" "st' = st2"
  | (mismatch) entry rh rest h where "d \<noteq> []" "c_cut c d = Inr (entry, rh, rest)"
      "at_int hashes (i - base) = Inr h" "rh \<noteq> h"
      "r = Inl (Returns (Some (HashMismatch i)))" "st' = st2"
  | (skip) entry rh rest where "d \<noteq> []" "c_cut c d = Inr (entry, rh, rest)"
      "at_int hashes (i - base) = Inr rh" "i < it_start st" "r = Inr rest" "st' = st2"
  | (yielded) entry rh rest where "d \<noteq> []" "c_cut c d = Inr (entry, rh, rest)"
      "at_int hashes (i - base) = Inr rh" "\<not> i < it_start st"
      "yield w (it_yielded st @ [(i, entry)])"
      "r = Inr rest" "st' = st2\<lparr>it_yielded := it_yielded st @ [(i, entry)]\<rparr>"
  | (stopped) entry rh rest where "d \<noteq> []" "c_cut c d = Inr (entry, rh, rest)"
      "at_int hashes (i - base) = Inr rh" "\<not> i < it_start st"
      "\<not> yield w (it_yielded st @ [(i, entry)])"
      "r = Inl (Returns None)" "st' = st2\<lparr>it_yielded := it_yielded st @ [(i, entry)]\<rparr>"
proof (cases "ctxErr w (it_polls st)")
  case (Some e)
  with r have "r = Inl (Returns (Some (ContextDone e)))" "st' = st1"
    by (simp_all add: entry_step_Z_def poll_eq st1_def)
  then show ?thesis by (rule ctx)
next
  case None
  show ?thesis
  proof (cases "d = []")
    case True
    with r None have "r = Inl (Returns (Some (EndOfTileData tN)))" "st' = st1"
      by (simp_all add: entry_step_Z_def poll_eq st1_def)
    with True show ?thesis by (intro eod)
  next
    case ne: False
    show ?thesis
    proof (cases "c_cut c d")
      case (Inl e)
      with r None ne have "r = Inl (Returns (Some (CutFailed i e)))" "st' = st2"
        by (simp_all add: entry_step_Z_def poll_eq st2_def Let_def)
      with ne Inl show ?thesis by (intro cutfail)
    next
      case (Inr x)
      obtain entry rh rest where x: "x = (entry, rh, rest)" by (cases x)
      with Inr have cf: "c_cut c d = Inr (entry, rh, rest)" by simp
      show ?thesis
      proof (cases "at_int hashes (i - base)")
        case (Inl p)
        with r None ne cf have "r = Inl (Panics p)" "st' = st2"
          by (simp_all add: entry_step_Z_def poll_eq st2_def Let_def)
        with ne cf Inl show ?thesis by (intro panics)
      next
        case h: (Inr h)
        show ?thesis
        proof (cases "rh = h")
          case False
          with r None ne cf h have "r = Inl (Returns (Some (HashMismatch i)))" "st' = st2"
            by (simp_all add: entry_step_Z_def poll_eq st2_def Let_def)
          with ne cf h False show ?thesis by (intro mismatch)
        next
          case True
          with h have h': "at_int hashes (i - base) = Inr rh" by simp
          show ?thesis
          proof (cases "i < it_start st")
            case lt: True
            with r None ne cf h True have "r = Inr rest" "st' = st2"
              by (simp_all add: entry_step_Z_def poll_eq st2_def Let_def)
            with ne cf h' lt show ?thesis by (intro skip)
          next
            case ge: False
            show ?thesis
            proof (cases "yield w (it_yielded st @ [(i, entry)])")
              case y: True
              with r None ne cf h True ge have "r = Inr rest"
                "st' = st2\<lparr>it_yielded := it_yielded st @ [(i, entry)]\<rparr>"
                by (simp_all add: entry_step_Z_def poll_eq st2_def Let_def)
              with ne cf h' ge y show ?thesis by (intro yielded)
            next
              case n: False
              with r None ne cf h True ge have "r = Inl (Returns None)"
                "st' = st2\<lparr>it_yielded := it_yielded st @ [(i, entry)]\<rparr>"
                by (simp_all add: entry_step_Z_def poll_eq st2_def Let_def)
              with ne cf h' ge n show ?thesis by (intro stopped)
            qed
          qed
        qed
      qed
    qed
  qed
qed

text \<open>The ways through the body of the loop over the tiles of a batch.\<close>

lemma tile_step_Z_cases:
  assumes r: "tile_step_Z w c hashes base tdata ti u st = (r, st')"
  obtains
    (panics) p where "at tdata ti = Inl p" "r = Inl (Panics p)" "st' = st"
  | (inner) ex where "ti < length tdata"
      "entries_loop_Z w c hashes base (N u) [N u * TileWidth..N u * TileWidth + W u - 1]
         (tdata ! ti) st = (Inl ex, st')" "r = Inl ex"
  | (leftover) d' where "ti < length tdata"
      "entries_loop_Z w c hashes base (N u) [N u * TileWidth..N u * TileWidth + W u - 1]
         (tdata ! ti) st = (Inr d', st')" "d' \<noteq> []"
      "r = Inl (Returns (Some (LeftoverData (N u))))"
  | (complete) st1 where "ti < length tdata"
      "entries_loop_Z w c hashes base (N u) [N u * TileWidth..N u * TileWidth + W u - 1]
         (tdata ! ti) st = (Inr [], st1)"
      "r = Inr ()" "st' = st1\<lparr>it_start := N u * TileWidth + W u\<rparr>"
proof (cases "at tdata ti")
  case (Inl p)
  with r have "r = Inl (Panics p)" "st' = st" by (simp_all add: tile_step_Z_def Let_def)
  with Inl show ?thesis by (intro panics)
next
  case (Inr d)
  then have ti: "ti < length tdata" and d: "d = tdata ! ti" by (simp_all add: at_Inr)
  obtain r1 st1 where
    l: "entries_loop_Z w c hashes base (N u) [N u * TileWidth..N u * TileWidth + W u - 1]
         (tdata ! ti) st = (r1, st1)"
    by (cases "entries_loop_Z w c hashes base (N u) [N u * TileWidth..N u * TileWidth + W u - 1]
         (tdata ! ti) st")
  show ?thesis
  proof (cases r1)
    case (Inl ex)
    with r Inr d l have "r = Inl ex" "st' = st1" by (simp_all add: tile_step_Z_def Let_def)
    with l Inl ti show ?thesis by (intro inner) simp_all
  next
    case r1: (Inr d')
    show ?thesis
    proof (cases "d' = []")
      case True
      with r Inr d l r1 have "r = Inr ()" "st' = st1\<lparr>it_start := N u * TileWidth + W u\<rparr>"
        by (simp_all add: tile_step_Z_def Let_def)
      with l r1 True ti show ?thesis by (intro complete) simp_all
    next
      case False
      with r Inr d l r1 have "r = Inl (Returns (Some (LeftoverData (N u))))" "st' = st1"
        by (simp_all add: tile_step_Z_def Let_def)
      with l r1 False ti show ?thesis by (intro leftover) simp_all
    qed
  qed
qed

text \<open>The ways through one turn of the outer loop.\<close>

lemma Entries_batch_Z_cases:
  fixes w :: "('s, 'x, 'h) world" and st :: "'s iter" and tree :: "'h Tree"
  defines "st1 \<equiv> st\<lparr>it_polls := Suc (it_polls st)\<rparr>"
  defines "base \<equiv> quot (it_start st) TileWidth * TileWidth"
  defines "tiles \<equiv> batch_tiles_Z base (batch_top_Z tree base) [0..<50]"
  assumes r: "Entries_batch_Z w c tree st = (r, st')"
  obtains
    (ctx) e where "r = Inl (Returns (Some (ContextDone e)))" "st' = st1"
  | (empty) "tiles = []" "r = Inl (Returns None)" "st' = st1"
  | (tileread) e s1 where "tiles \<noteq> []" "r = Inl (Returns (Some (TileReadFailed e)))"
      "st' = st1\<lparr>it_src := s1\<rparr>"
  | (hashread) e tdata s1 s2 where "tiles \<noteq> []"
      "ReadTiles (reader w) (it_src st) tiles = (Inr tdata, s1)"
      "r = Inl (Returns (Some (HashReadFailed e)))" "st' = st1\<lparr>it_src := s2\<rparr>"
  | (inner) ex tdata s1 hashes s2 where "tiles \<noteq> []"
      "ReadTiles (reader w) (it_src st) tiles = (Inr tdata, s1)"
      "ReadHashes w s1 tree (batch_indexes_Z w tiles) = (Inr hashes, s2)"
      "tiles_loop_Z w c hashes base tdata (enumerate 0 tiles) (st1\<lparr>it_src := s2\<rparr>) = (Inl ex, st')"
      "r = Inl ex"
  | (saved) tdata s1 hashes s2 st2 where "tiles \<noteq> []"
      "ReadTiles (reader w) (it_src st) tiles = (Inr tdata, s1)"
      "ReadHashes w s1 tree (batch_indexes_Z w tiles) = (Inr hashes, s2)"
      "tiles_loop_Z w c hashes base tdata (enumerate 0 tiles) (st1\<lparr>it_src := s2\<rparr>) = (Inr (), st2)"
      "r = Inr (batch_top_Z tree base)"
      "st' = st2\<lparr>it_src := SaveTiles (reader w) (it_src st2) tiles tdata\<rparr>"
proof -
  have p: "poll w st = (ctxErr w (it_polls st), st1)" by (simp add: poll_eq st1_def)
  have b: "quot (it_start st1) TileWidth * TileWidth = base" by (simp add: st1_def base_def)
  have src: "it_src st1 = it_src st" by (simp add: st1_def)
  note defs = Entries_batch_Z_def p b Let_def tiles_def [symmetric] src
  show ?thesis
  proof (cases "ctxErr w (it_polls st)")
    case (Some e)
    with r have "r = Inl (Returns (Some (ContextDone e)))" "st' = st1"
      by (simp_all add: defs)
    then show ?thesis by (rule ctx)
  next
    case None
    show ?thesis
    proof (cases "tiles = []")
      case True
      with r None have "r = Inl (Returns None)" "st' = st1" by (simp_all add: defs)
      with True show ?thesis by (intro empty)
    next
      case ne: False
      obtain rt s1 where rt: "ReadTiles (reader w) (it_src st) tiles = (rt, s1)"
        by (cases "ReadTiles (reader w) (it_src st) tiles")
      show ?thesis
      proof (cases rt)
        case (Inl e)
        with r None ne rt have "r = Inl (Returns (Some (TileReadFailed e)))"
          "st' = st1\<lparr>it_src := s1\<rparr>" by (simp_all add: defs)
        with ne show ?thesis by (intro tileread)
      next
        case (Inr tdata)
        with rt have rt': "ReadTiles (reader w) (it_src st) tiles = (Inr tdata, s1)" by simp
        obtain rh s2 where rh: "ReadHashes w s1 tree (batch_indexes_Z w tiles) = (rh, s2)"
          by (cases "ReadHashes w s1 tree (batch_indexes_Z w tiles)")
        show ?thesis
        proof (cases rh)
          case (Inl e)
          with r None ne rt' rh have "r = Inl (Returns (Some (HashReadFailed e)))"
            "st' = st1\<lparr>it_src := s2\<rparr>" by (simp_all add: defs)
          with ne rt' show ?thesis by (intro hashread)
        next
          case (Inr hashes)
          with rh have rh': "ReadHashes w s1 tree (batch_indexes_Z w tiles) = (Inr hashes, s2)"
            by simp
          obtain rl st2 where rl: "tiles_loop_Z w c hashes base tdata (enumerate 0 tiles)
              (st1\<lparr>it_src := s2\<rparr>) = (rl, st2)"
            by (cases "tiles_loop_Z w c hashes base tdata (enumerate 0 tiles) (st1\<lparr>it_src := s2\<rparr>)")
          show ?thesis
          proof (cases rl)
            case (Inl ex)
            with r None ne rt' rh' rl have "r = Inl ex" "st' = st2" by (simp_all add: defs)
            with ne rt' rh' rl Inl show ?thesis by (intro inner) simp_all
          next
            case (Inr v)
            with r None ne rt' rh' rl have "r = Inr (batch_top_Z tree base)"
              "st' = st2\<lparr>it_src := SaveTiles (reader w) (it_src st2) tiles tdata\<rparr>"
              by (simp_all add: defs)
            with ne rt' rh' rl Inr show ?thesis by (intro saved) simp_all
          qed
        qed
      qed
    qed
  qed
qed

text \<open>
  An invariant of the outer loop: if every turn that starts where \<open>I\<close> holds ends where \<open>J\<close>
  holds, and where \<open>I\<close> holds again when the loop goes on, then \<open>J\<close> holds when the loop has
  ended.
\<close>

lemma Entries_loop_Z_rule:
  assumes step: "\<And>st r st'. I st \<Longrightarrow> Entries_batch_Z w c tree st = (r, st') \<Longrightarrow>
      (case r of Inl ex \<Rightarrow> J ex st'
       | Inr top' \<Rightarrow> if it_start st' = top' then J (Returns None) st' else I st')"
    and "I st" and "Entries_loop_Z w c tree st = (ex, st')"
  shows "J ex st'"
  using assms
proof (induction w c tree st rule: Entries_loop_Z.induct)
  case (1 w c tree st)
  obtain r st1 where b: "Entries_batch_Z w c tree st = (r, st1)"
    by (cases "Entries_batch_Z w c tree st")
  note s = "1.prems"(1) [OF "1.prems"(2) b]
  show ?case
  proof (cases r)
    case (Inl ex1)
    with "1.prems"(3) b have "ex = ex1" "st' = st1"
      by (simp_all add: Entries_loop_Z.simps [of w c tree st])
    with s Inl show ?thesis by simp
  next
    case (Inr top')
    show ?thesis
    proof (cases "it_start st1 = top'")
      case True
      with "1.prems"(3) b Inr have "ex = Returns None" "st' = st1"
        by (simp_all add: Entries_loop_Z.simps [of w c tree st])
      with s Inr True show ?thesis by simp
    next
      case False
      with "1.prems"(3) b Inr have l: "Entries_loop_Z w c tree st1 = (ex, st')"
        by (simp add: Entries_loop_Z.simps [of w c tree st])
      from s Inr False have i: "I st1" by simp
      from "1.IH" [OF b [symmetric] Inr False "1.prems"(1) i l] show ?thesis .
    qed
  qed
qed

subsection \<open>What is cut and what is yielded\<close>

lemma cut_rest_step:
  "cut_rest cf k d0 = Some dk \<Longrightarrow> dk \<noteq> [] \<Longrightarrow> cf dk = Inr (entry, rh, rest) \<Longrightarrow>
     cut_rest cf (Suc k) d0 = Some rest"
proof (induction k arbitrary: d0)
  case 0
  then show ?case by simp
next
  case (Suc k)
  from Suc.prems(1) obtain e1 rh1 r1 where
    ne: "d0 \<noteq> []" and c: "cf d0 = Inr (e1, rh1, r1)" and r: "cut_rest cf k r1 = Some dk"
    by (auto split: if_splits sum.splits)
  from Suc.IH [OF r Suc.prems(2,3)] have "cut_rest cf (Suc k) r1 = Some rest" .
  with ne c show ?case by (simp del: cut_rest.simps(2) add: cut_rest.simps(2) [of cf "Suc k" d0])
qed

lemma cut_entry_step:
  "cut_rest cf k d0 = Some dk \<Longrightarrow> dk \<noteq> [] \<Longrightarrow> cf dk = Inr (entry, rh, rest) \<Longrightarrow>
     cut_entry cf k d0 = Some (entry, rh)"
  by (simp add: cut_entry_def)

lemma cut_entry_cut:
  "cut_entry cf k d0 = Some (entry, rh) \<Longrightarrow>
     \<exists>dk rest. dk \<noteq> [] \<and> cf dk = Inr (entry, rh, rest)"
  by (auto simp: cut_entry_def split: option.splits if_splits sum.splits)

text \<open>
  The loop over the entries \<open>i, ..., b\<close> of a tile whose data was \<open>d0\<close>, when \<open>k\<close> entries have
  been cut before: what it adds to the pairs yielded and to the calls of \<open>cut\<close>.
\<close>

lemma entries_loop_Z_adds:
  assumes "entries_loop_Z w c hashes base tN [i..b] d st = (r, st')"
    and "cut_rest (c_cut c) k d0 = Some d"
  shows "\<exists>ys cs. it_yielded st' = it_yielded st @ ys \<and> it_cuts st' = it_cuts st @ cs \<and>
     (\<forall>x\<in>set cs. x \<noteq> []) \<and>
     (\<forall>(j, e)\<in>set ys. i \<le> j \<and> j \<le> b \<and> it_start st \<le> j \<and>
        (\<exists>rh. cut_entry (c_cut c) (k + nat (j - i)) d0 = Some (e, rh) \<and>
              at_int hashes (j - base) = Inr rh))"
  using assms
proof (induction "nat (b + 1 - i)" arbitrary: i k d st)
  case 0
  then have "[i..b] = []" by simp
  with "0.prems"(1) have "st' = st" by simp
  then show ?case by simp
next
  case (Suc n)
  then have ib: "i \<le> b" and n: "n = nat (b + 1 - (i + 1))" by simp_all
  then have upt: "[i..b] = i # [i + 1..b]" by (simp add: upto_rec1)
  obtain r1 st1 where s: "entry_step_Z w c hashes base tN i d st = (r1, st1)"
    by (cases "entry_step_Z w c hashes base tN i d st")
  have ends: ?case if "r1 = Inl ex" "it_yielded st1 = it_yielded st"
    "it_cuts st1 = it_cuts st \<or> (d \<noteq> [] \<and> it_cuts st1 = it_cuts st @ [d])" for ex
  proof -
    from Suc.prems(1) s that(1) upt have "st' = st1" by simp
    with that(2,3) show ?thesis
    proof (elim disjE)
      assume "it_cuts st1 = it_cuts st"
      with \<open>st' = st1\<close> that(2) show ?thesis
        by (intro exI [of _ "[]"]) simp
    next
      assume "d \<noteq> [] \<and> it_cuts st1 = it_cuts st @ [d]"
      with \<open>st' = st1\<close> that(2) have "it_yielded st' = it_yielded st @ []"
        "it_cuts st' = it_cuts st @ [d]" "\<forall>x\<in>set [d]. x \<noteq> []" by simp_all
      then show ?thesis by (intro exI [of _ "[]"] exI [of _ "[d]"]) simp
    qed
  qed
  have goes: ?case
    if c: "d \<noteq> []" "c_cut c d = Inr (entry, rh, rest)" "at_int hashes (i - base) = Inr rh"
      and r1: "r1 = Inr rest"
      and st1: "it_cuts st1 = it_cuts st @ [d]" "it_start st1 = it_start st"
      and y: "it_yielded st1 = it_yielded st \<or>
              (it_start st \<le> i \<and> it_yielded st1 = it_yielded st @ [(i, entry)])"
    for entry rh rest
  proof -
    from Suc.prems(1) s r1 upt have l: "entries_loop_Z w c hashes base tN [i + 1..b] rest st1 = (r, st')"
      by simp
    from cut_rest_step [OF Suc.prems(2) c(1,2)]
    have cr: "cut_rest (c_cut c) (Suc k) d0 = Some rest" .
    from Suc.hyps(1) [OF n l cr] obtain ys cs where
      a: "it_yielded st' = it_yielded st1 @ ys" and b: "it_cuts st' = it_cuts st1 @ cs" and
      cne: "\<forall>x\<in>set cs. x \<noteq> []" and
      yy: "\<forall>(j, e)\<in>set ys. i + 1 \<le> j \<and> j \<le> b \<and> it_start st1 \<le> j \<and>
        (\<exists>rh. cut_entry (c_cut c) (Suc k + nat (j - (i + 1))) d0 = Some (e, rh) \<and>
              at_int hashes (j - base) = Inr rh)"
      by blast
    have yy': "\<forall>(j, e)\<in>set ys. i \<le> j \<and> j \<le> b \<and> it_start st \<le> j \<and>
        (\<exists>rh. cut_entry (c_cut c) (k + nat (j - i)) d0 = Some (e, rh) \<and>
              at_int hashes (j - base) = Inr rh)"
    proof (intro ballI, clarify)
      fix j e assume m: "(j, e) \<in> set ys"
      with yy have j: "i + 1 \<le> j" "j \<le> b" "it_start st1 \<le> j" and
        ex: "\<exists>rh. cut_entry (c_cut c) (Suc k + nat (j - (i + 1))) d0 = Some (e, rh) \<and>
              at_int hashes (j - base) = Inr rh" by auto
      from j(1) have eq: "Suc k + nat (j - (i + 1)) = k + nat (j - i)" by simp
      from ex [unfolded eq] j st1(2) show "i \<le> j \<and> j \<le> b \<and> it_start st \<le> j \<and>
        (\<exists>rh. cut_entry (c_cut c) (k + nat (j - i)) d0 = Some (e, rh) \<and>
              at_int hashes (j - base) = Inr rh)" by simp
    qed
    have me: "cut_entry (c_cut c) (k + nat (i - i)) d0 = Some (entry, rh)"
      using cut_entry_step [OF Suc.prems(2) c(1,2)] by simp
    from y show ?thesis
    proof
      assume "it_yielded st1 = it_yielded st"
      with a b st1(1) have "it_yielded st' = it_yielded st @ ys"
        "it_cuts st' = it_cuts st @ (d # cs)" by simp_all
      moreover have "\<forall>x\<in>set (d # cs). x \<noteq> []" using c(1) cne by simp
      ultimately show ?thesis using yy' by blast
    next
      assume h: "it_start st \<le> i \<and> it_yielded st1 = it_yielded st @ [(i, entry)]"
      with a b st1(1) have "it_yielded st' = it_yielded st @ ((i, entry) # ys)"
        "it_cuts st' = it_cuts st @ (d # cs)" by simp_all
      moreover have "\<forall>x\<in>set (d # cs). x \<noteq> []" using c(1) cne by simp
      moreover have "\<forall>(j, e)\<in>set ((i, entry) # ys). i \<le> j \<and> j \<le> b \<and> it_start st \<le> j \<and>
        (\<exists>rh. cut_entry (c_cut c) (k + nat (j - i)) d0 = Some (e, rh) \<and>
              at_int hashes (j - base) = Inr rh)"
        using yy' me c(3) h ib by simp
      ultimately show ?thesis by blast
    qed
  qed
  from s show ?case
  proof (cases rule: entry_step_Z_cases)
    case (ctx e)
    then show ?thesis by (intro ends) simp_all
  next
    case eod
    then show ?thesis by (intro ends) simp_all
  next
    case (cutfail e)
    then show ?thesis by (intro ends) simp_all
  next
    case (panics entry rh rest p)
    then show ?thesis by (intro ends) simp_all
  next
    case (mismatch entry rh rest h)
    then show ?thesis by (intro ends) simp_all
  next
    case (skip entry rh rest)
    then show ?thesis by (intro goes [of entry rh rest]) simp_all
  next
    case (yielded entry rh rest)
    then show ?thesis by (intro goes [of entry rh rest]) simp_all
  next
    case (stopped entry rh rest)
    from Suc.prems(1) s stopped(6) upt have e: "st' = st1" by simp
    have "it_yielded st' = it_yielded st @ [(i, entry)]" "it_cuts st' = it_cuts st @ [d]"
      using e stopped(7) by simp_all
    moreover have "\<forall>x\<in>set [d]. x \<noteq> []" using stopped(1) by simp
    moreover have "\<forall>(j, e)\<in>set [(i, entry)]. i \<le> j \<and> j \<le> b \<and> it_start st \<le> j \<and>
        (\<exists>rh. cut_entry (c_cut c) (k + nat (j - i)) d0 = Some (e, rh) \<and>
              at_int hashes (j - base) = Inr rh)"
      using cut_entry_step [OF Suc.prems(2) stopped(1,2)] stopped(3,4) ib by simp
    ultimately show ?thesis by blast
  qed
qed

lemma tile_step_Z_adds:
  assumes "tile_step_Z w c hashes base tdata ti u st = (r, st')"
  shows "\<exists>ys cs. it_yielded st' = it_yielded st @ ys \<and> it_cuts st' = it_cuts st @ cs \<and>
     (\<forall>x\<in>set cs. x \<noteq> []) \<and>
     (\<forall>(j, e)\<in>set ys. entry_of_tile (c_cut c) hashes base tdata ti u j e)"
proof -
  have body: "\<exists>ys cs. it_yielded st1 = it_yielded st @ ys \<and> it_cuts st1 = it_cuts st @ cs \<and>
     (\<forall>x\<in>set cs. x \<noteq> []) \<and>
     (\<forall>(j, e)\<in>set ys. entry_of_tile (c_cut c) hashes base tdata ti u j e)"
    if l: "entries_loop_Z w c hashes base (N u) [N u * TileWidth..N u * TileWidth + W u - 1]
         (tdata ! ti) st = (r1, st1)" and ti: "ti < length tdata" for r1 st1
  proof -
    have "cut_rest (c_cut c) 0 (tdata ! ti) = Some (tdata ! ti)" by simp
    from entries_loop_Z_adds [OF l this] obtain ys cs where
      a: "it_yielded st1 = it_yielded st @ ys" "it_cuts st1 = it_cuts st @ cs"
        "\<forall>x\<in>set cs. x \<noteq> []" and
      y: "\<forall>(j, e)\<in>set ys. N u * TileWidth \<le> j \<and> j \<le> N u * TileWidth + W u - 1 \<and>
        it_start st \<le> j \<and>
        (\<exists>rh. cut_entry (c_cut c) (0 + nat (j - N u * TileWidth)) (tdata ! ti) = Some (e, rh) \<and>
              at_int hashes (j - base) = Inr rh)"
      by blast
    have "\<forall>(j, e)\<in>set ys. entry_of_tile (c_cut c) hashes base tdata ti u j e"
    proof (intro ballI, clarify)
      fix j e assume "(j, e) \<in> set ys"
      with y have "N u * TileWidth \<le> j" "j \<le> N u * TileWidth + W u - 1"
        "\<exists>rh. cut_entry (c_cut c) (0 + nat (j - N u * TileWidth)) (tdata ! ti) = Some (e, rh) \<and>
              at_int hashes (j - base) = Inr rh" by auto
      with ti show "entry_of_tile (c_cut c) hashes base tdata ti u j e"
        by (simp add: entry_of_tile_def)
    qed
    with a show ?thesis by blast
  qed
  from assms show ?thesis
  proof (cases rule: tile_step_Z_cases)
    case (panics p)
    then show ?thesis by simp
  next
    case (inner ex)
    from body [OF this(2,1)] show ?thesis .
  next
    case (leftover d')
    from body [OF this(2,1)] show ?thesis .
  next
    case (complete st1)
    from body [OF this(2,1)] complete(4) show ?thesis by simp
  qed
qed

lemma tiles_loop_Z_adds:
  assumes "tiles_loop_Z w c hashes base tdata its st = (r, st')"
  shows "\<exists>ys cs. it_yielded st' = it_yielded st @ ys \<and> it_cuts st' = it_cuts st @ cs \<and>
     (\<forall>x\<in>set cs. x \<noteq> []) \<and>
     (\<forall>(j, e)\<in>set ys. \<exists>(ti, u)\<in>set its. entry_of_tile (c_cut c) hashes base tdata ti u j e)"
  using assms
proof (induction its arbitrary: st)
  case Nil
  then show ?case by simp
next
  case (Cons a its)
  obtain ti u where a: "a = (ti, u)" by (cases a)
  obtain r1 st1 where s: "tile_step_Z w c hashes base tdata ti u st = (r1, st1)"
    by (cases "tile_step_Z w c hashes base tdata ti u st")
  from tile_step_Z_adds [OF s] obtain ys1 cs1 where
    a1: "it_yielded st1 = it_yielded st @ ys1" "it_cuts st1 = it_cuts st @ cs1"
      "\<forall>x\<in>set cs1. x \<noteq> []" and
    y1: "\<forall>(j, e)\<in>set ys1. entry_of_tile (c_cut c) hashes base tdata ti u j e"
    by blast
  from y1 a have y1': "\<forall>(j, e)\<in>set ys1. \<exists>(ti, u)\<in>set (a # its).
      entry_of_tile (c_cut c) hashes base tdata ti u j e" by auto
  show ?case
  proof (cases r1)
    case (Inl ex)
    with Cons.prems s a have "st' = st1" by simp
    with a1 y1' show ?thesis by blast
  next
    case (Inr v)
    with Cons.prems s a have "tiles_loop_Z w c hashes base tdata its st1 = (r, st')" by simp
    from Cons.IH [OF this] obtain ys2 cs2 where
      a2: "it_yielded st' = it_yielded st1 @ ys2" "it_cuts st' = it_cuts st1 @ cs2"
        "\<forall>x\<in>set cs2. x \<noteq> []" and
      y2: "\<forall>(j, e)\<in>set ys2. \<exists>(ti, u)\<in>set its.
        entry_of_tile (c_cut c) hashes base tdata ti u j e"
      by blast
    from a1 a2 have "it_yielded st' = it_yielded st @ (ys1 @ ys2)"
      "it_cuts st' = it_cuts st @ (cs1 @ cs2)" "\<forall>x\<in>set (cs1 @ cs2). x \<noteq> []" by auto
    moreover from y1' y2 have "\<forall>(j, e)\<in>set (ys1 @ ys2). \<exists>(ti, u)\<in>set (a # its).
      entry_of_tile (c_cut c) hashes base tdata ti u j e" by auto
    ultimately show ?thesis by blast
  qed
qed

text \<open>
  What one turn of the outer loop adds: the calls of \<open>cut\<close> are on data that is not empty,
  and every pair yielded is an entry of a tile of the batch, cut from the data that
  \<^verbatim>\<open>ReadTiles\<close> gave for the tile, with the record hash that \<^verbatim>\<open>ReadHashes\<close> gave for its index.
\<close>

lemma Entries_batch_Z_adds:
  assumes "Entries_batch_Z w c tree st = (r, st')"
  shows "\<exists>ys cs. it_yielded st' = it_yielded st @ ys \<and> it_cuts st' = it_cuts st @ cs \<and>
     (\<forall>x\<in>set cs. x \<noteq> []) \<and>
     (ys = [] \<or>
      (\<exists>tdata s1 hashes s2.
         ReadTiles (reader w) (it_src st) (batch_of tree st) = (Inr tdata, s1) \<and>
         ReadHashes w s1 tree (batch_indexes_Z w (batch_of tree st)) = (Inr hashes, s2) \<and>
         (\<forall>(j, e)\<in>set ys. \<exists>ti<length (batch_of tree st).
            entry_of_tile (c_cut c) hashes (batch_base st) tdata ti (batch_of tree st ! ti) j e)))"
proof -
  let ?tiles = "batch_of tree st"
  have unchanged: ?thesis if "it_yielded st' = it_yielded st" "it_cuts st' = it_cuts st"
    using that by simp
  have loop: ?thesis
    if rt: "ReadTiles (reader w) (it_src st) ?tiles = (Inr tdata, s1)"
      and rh: "ReadHashes w s1 tree (batch_indexes_Z w ?tiles) = (Inr hashes, s2)"
      and tl: "tiles_loop_Z w c hashes (batch_base st) tdata (enumerate 0 ?tiles)
         (st\<lparr>it_polls := Suc (it_polls st), it_src := s2\<rparr>) = (rl, st2)"
      and st': "it_yielded st' = it_yielded st2" "it_cuts st' = it_cuts st2"
    for tdata s1 hashes s2 rl st2
  proof -
    from tiles_loop_Z_adds [OF tl] obtain ys cs where
      a: "it_yielded st2 = it_yielded st @ ys" "it_cuts st2 = it_cuts st @ cs"
        "\<forall>x\<in>set cs. x \<noteq> []" and
      y: "\<forall>(j, e)\<in>set ys. \<exists>(ti, u)\<in>set (enumerate 0 ?tiles).
        entry_of_tile (c_cut c) hashes (batch_base st) tdata ti u j e"
      by auto
    have "\<forall>(j, e)\<in>set ys. \<exists>ti<length ?tiles.
        entry_of_tile (c_cut c) hashes (batch_base st) tdata ti (?tiles ! ti) j e"
    proof (intro ballI, clarify)
      fix j e assume "(j, e) \<in> set ys"
      with y obtain ti u where "(ti, u) \<in> set (enumerate 0 ?tiles)"
        "entry_of_tile (c_cut c) hashes (batch_base st) tdata ti u j e" by auto
      then show "\<exists>ti<length ?tiles.
        entry_of_tile (c_cut c) hashes (batch_base st) tdata ti (?tiles ! ti) j e"
        by (auto simp: in_set_enumerate_eq)
    qed
    with rt rh have "ys = [] \<or>
      (\<exists>tdata s1 hashes s2.
         ReadTiles (reader w) (it_src st) ?tiles = (Inr tdata, s1) \<and>
         ReadHashes w s1 tree (batch_indexes_Z w ?tiles) = (Inr hashes, s2) \<and>
         (\<forall>(j, e)\<in>set ys. \<exists>ti<length ?tiles.
            entry_of_tile (c_cut c) hashes (batch_base st) tdata ti (?tiles ! ti) j e))"
      by blast
    with a st' show ?thesis by auto
  qed
  from assms show ?thesis
  proof (cases rule: Entries_batch_Z_cases)
    case (ctx e)
    then show ?thesis by (intro unchanged) simp_all
  next
    case empty
    then show ?thesis by (intro unchanged) simp_all
  next
    case (tileread e s1)
    then show ?thesis by (intro unchanged) simp_all
  next
    case (hashread e tdata s1 s2)
    then show ?thesis by (intro unchanged) simp_all
  next
    case (inner ex tdata s1 hashes s2)
    show ?thesis
      by (rule loop [OF _ _ _ refl refl, of tdata s1 hashes s2 "Inl ex"])
         (use inner in \<open>simp_all add: batch_of_def batch_base_def\<close>)
  next
    case (saved tdata s1 hashes s2 st2)
    show ?thesis
      by (rule loop [of tdata s1 hashes s2 "Inr ()" st2])
         (use saved in \<open>simp_all add: batch_of_def batch_base_def\<close>)
  qed
qed

subsection \<open>The calls of the cut function\<close>

lemma entry_step_cuts:
  assumes "entry_step w c hashes base tN i d st = (r, st')"
    and "\<forall>x\<in>set (it_cuts st). x \<noteq> []"
  shows "\<forall>x\<in>set (it_cuts st'). x \<noteq> []"
proof -
  from assms(1) have "it_cuts st' = it_cuts st \<or> (d \<noteq> [] \<and> it_cuts st' = it_cuts st @ [d])"
    by (auto simp: entry_step_def poll_def Let_def
        split: option.splits if_splits sum.splits prod.splits)
  with assms(2) show ?thesis by auto
qed

lemma entries_loop_cuts:
  "entries_loop w c hashes base tN is d st = (r, st') \<Longrightarrow> \<forall>x\<in>set (it_cuts st). x \<noteq> [] \<Longrightarrow>
     \<forall>x\<in>set (it_cuts st'). x \<noteq> []"
proof (induction "is" arbitrary: d st)
  case Nil
  then show ?case by simp
next
  case (Cons i "is")
  obtain r1 st1 where e: "entry_step w c hashes base tN i d st = (r1, st1)"
    by (cases "entry_step w c hashes base tN i d st")
  from entry_step_cuts [OF e Cons.prems(2)] have c1: "\<forall>x\<in>set (it_cuts st1). x \<noteq> []" .
  show ?case
  proof (cases r1)
    case (Inl ex)
    with Cons.prems(1) e have "st' = st1" by simp
    with c1 show ?thesis by simp
  next
    case (Inr rest)
    with Cons.prems(1) e have "entries_loop w c hashes base tN is rest st1 = (r, st')" by simp
    from Cons.IH [OF this c1] show ?thesis .
  qed
qed

lemma tile_step_cuts:
  assumes "tile_step w c hashes base tdata ti u st = (r, st')"
    and "\<forall>x\<in>set (it_cuts st). x \<noteq> []"
  shows "\<forall>x\<in>set (it_cuts st'). x \<noteq> []"
proof (cases "at tdata ti")
  case (Inl p)
  with assms(1) have "st' = st" by (simp add: tile_step_def Let_def)
  with assms(2) show ?thesis by simp
next
  case (Inr d)
  let ?s = "mul64 (N u) TileWidth"
  let ?e = "add64 ?s (W u)"
  obtain r1 st1 where e: "entries_loop w c hashes base (N u) [?s..?e - 1] d st = (r1, st1)"
    by (cases "entries_loop w c hashes base (N u) [?s..?e - 1] d st")
  from entries_loop_cuts [OF e assms(2)] have c1: "\<forall>x\<in>set (it_cuts st1). x \<noteq> []" .
  from assms(1) Inr e have "it_cuts st' = it_cuts st1"
    by (auto simp: tile_step_def Let_def split: sum.splits if_splits)
  with c1 show ?thesis by simp
qed

lemma tiles_loop_cuts:
  "tiles_loop w c hashes base tdata its st = (r, st') \<Longrightarrow> \<forall>x\<in>set (it_cuts st). x \<noteq> [] \<Longrightarrow>
     \<forall>x\<in>set (it_cuts st'). x \<noteq> []"
proof (induction its arbitrary: st)
  case Nil
  then show ?case by simp
next
  case (Cons tu its)
  obtain ti u where tu: "tu = (ti, u)" by (cases tu)
  obtain r1 st1 where e: "tile_step w c hashes base tdata ti u st = (r1, st1)"
    by (cases "tile_step w c hashes base tdata ti u st")
  from tile_step_cuts [OF e Cons.prems(2)] have c1: "\<forall>x\<in>set (it_cuts st1). x \<noteq> []" .
  show ?case
  proof (cases r1)
    case (Inl ex)
    with Cons.prems(1) e tu have "st' = st1" by simp
    with c1 show ?thesis by simp
  next
    case (Inr x)
    with Cons.prems(1) e tu have "tiles_loop w c hashes base tdata its st1 = (r, st')" by simp
    from Cons.IH [OF this c1] show ?thesis .
  qed
qed

lemma Entries_batch_cuts:
  assumes b: "Entries_batch w c tree st = (r, st')"
    and i: "\<forall>x\<in>set (it_cuts st). x \<noteq> []"
  shows "\<forall>x\<in>set (it_cuts st'). x \<noteq> []"
proof -
  let ?st1 = "st\<lparr>it_polls := Suc (it_polls st)\<rparr>"
  let ?base = "mul64 (quot (it_start st) TileWidth) TileWidth"
  let ?tiles = "batch_tiles ?base (batch_top tree ?base) [0..<50]"
  note defs = Entries_batch_def poll_def Let_def
  show ?thesis
  proof (cases "ctxErr w (it_polls st)")
    case (Some e)
    with b have "st' = ?st1" by (simp add: defs)
    with i show ?thesis by simp
  next
    case None
    show ?thesis
    proof (cases "?tiles = []")
      case True
      with b None have "st' = ?st1" by (simp add: defs)
      with i show ?thesis by simp
    next
      case False
      obtain rt s1 where rt: "ReadTiles (reader w) (it_src st) ?tiles = (rt, s1)"
        by (cases "ReadTiles (reader w) (it_src st) ?tiles")
      show ?thesis
      proof (cases rt)
        case (Inl e)
        with b None False rt have "st' = ?st1\<lparr>it_src := s1\<rparr>" by (simp add: defs)
        with i show ?thesis by simp
      next
        case (Inr tdata)
        note td = this
        obtain rh s2 where rh: "ReadHashes w s1 tree (batch_indexes w ?tiles) = (rh, s2)"
          by (cases "ReadHashes w s1 tree (batch_indexes w ?tiles)")
        show ?thesis
        proof (cases rh)
          case (Inl e)
          with b None False rt td rh have "st' = ?st1\<lparr>it_src := s2\<rparr>" by (simp add: defs)
          with i show ?thesis by simp
        next
          case (Inr hashes)
          obtain r2 st2 where t: "tiles_loop w c hashes ?base tdata (enumerate 0 ?tiles)
              (?st1\<lparr>it_src := s2\<rparr>) = (r2, st2)"
            by (cases "tiles_loop w c hashes ?base tdata (enumerate 0 ?tiles)
              (?st1\<lparr>it_src := s2\<rparr>)")
          from i have "\<forall>x\<in>set (it_cuts (?st1\<lparr>it_src := s2\<rparr>)). x \<noteq> []" by simp
          from tiles_loop_cuts [OF t this] have c2: "\<forall>x\<in>set (it_cuts st2). x \<noteq> []" .
          from b None False rt td rh Inr t have "it_cuts st' = it_cuts st2"
            by (cases r2) (auto simp: defs)
          with c2 show ?thesis by simp
        qed
      qed
    qed
  qed
qed

lemma Entries_loop_cuts:
  "Entries_loop w c tree n st = (ex, st') \<Longrightarrow> \<forall>x\<in>set (it_cuts st). x \<noteq> [] \<Longrightarrow>
     \<forall>x\<in>set (it_cuts st'). x \<noteq> []"
proof (induction n arbitrary: st)
  case 0
  then show ?case by simp
next
  case (Suc n)
  obtain r1 st1 where b: "Entries_batch w c tree st = (r1, st1)"
    by (cases "Entries_batch w c tree st")
  from Entries_batch_cuts [OF b Suc.prems(2)] have c1: "\<forall>x\<in>set (it_cuts st1). x \<noteq> []" .
  show ?case
  proof (cases r1)
    case (Inl e)
    with Suc.prems(1) b have "st' = st1" by simp
    with c1 show ?thesis by simp
  next
    case (Inr top')
    show ?thesis
    proof (cases "it_start st1 = top'")
      case True
      with Suc.prems(1) b Inr have "st' = st1" by simp
      with c1 show ?thesis by simp
    next
      case False
      with Suc.prems(1) b Inr have "Entries_loop w c tree n st1 = (ex, st')" by simp
      from Suc.IH [OF this c1] show ?thesis .
    qed
  qed
qed

lemma Entries_final:
  "snd (snd (Entries w c tree start n)) =
     snd (Entries_loop w (Entries_call c) tree n
       \<lparr>it_src = c_tr c, it_polls = 0, it_start = start, it_yielded = [], it_cuts = []\<rparr>)"
  by (simp add: Entries_def Entries_iterate_def Entries_call_def split: prod.splits)

lemma Entries_exit:
  "fst (Entries w c tree start n) =
     fst (Entries_loop w (Entries_call c) tree n
       \<lparr>it_src = c_tr c, it_polls = 0, it_start = start, it_yielded = [], it_cuts = []\<rparr>)"
  by (simp add: Entries_def Entries_iterate_def Entries_call_def split: prod.splits)

text \<open>
  C8. In a run of \<^verbatim>\<open>Client.Entries\<close>, whatever the tile source, the hash reader, the cut
  function, the context and the consumer do, and after any number \<open>n\<close> of turns of the outer
  loop, whether the run has ended or not: every call of the cut function made so far was on
  data of length at least 1. (The argument of every call of \<^verbatim>\<open>c.cut\<close> is recorded in the state
  of the run, in \<open>it_cuts\<close>.)
\<close>

theorem Entries_cut_never_empty:
  "\<forall>d\<in>set (it_cuts (snd (snd (Entries w c tree start n)))). 1 \<le> length d"
proof -
  obtain ex st' where l: "Entries_loop w (Entries_call c) tree n
       \<lparr>it_src = c_tr c, it_polls = 0, it_start = start, it_yielded = [], it_cuts = []\<rparr>
     = (ex, st')" by (rule prod.exhaust)
  from Entries_loop_cuts [OF l] have "\<forall>d\<in>set (it_cuts st'). d \<noteq> []" by simp
  then have "\<forall>d\<in>set (it_cuts st'). 1 \<le> length d"
    by (auto simp: Suc_le_eq)
  with l show ?thesis by (simp add: Entries_final)
qed

theorem Entries_cut_never_empty_witness:
  "it_cuts (snd (snd (Entries example_world example_client \<lparr>tree_N = 3, tree_Hash = []\<rparr> 1 2)))
     = [[97, 10, 10, 98, 10, 10, 99, 10, 10], [98, 10, 10, 99, 10, 10], [99, 10, 10]] \<and>
   list_all (\<lambda>d. 1 \<le> length d)
     (it_cuts (snd (snd (Entries example_world example_client \<lparr>tree_N = 3, tree_Hash = []\<rparr> 1 2))))"
proof -
  have "it_cuts (snd (snd (Entries example_world example_client \<lparr>tree_N = 3, tree_Hash = []\<rparr> 1 2)))
     = [[97, 10, 10, 98, 10, 10, 99, 10, 10], [98, 10, 10, 99, 10, 10], [99, 10, 10]]"
    by code_simp
  moreover from Entries_cut_never_empty [of example_world example_client
      "\<lparr>tree_N = 3, tree_Hash = []\<rparr>" 1 2]
  have "list_all (\<lambda>d. 1 \<le> length d)
     (it_cuts (snd (snd (Entries example_world example_client \<lparr>tree_N = 3, tree_Hash = []\<rparr> 1 2))))"
    by (simp only: list_all_iff)
  ultimately show ?thesis by (rule conjI)
qed

subsection \<open>The stashed error\<close>

text \<open>
  C10. The call of \<^verbatim>\<open>Client.Entries\<close> sets the stashed error to \<^verbatim>\<open>nil\<close> before the iteration
  begins. After the call and a run of the iterator, \<^verbatim>\<open>Client.Err\<close> is the error the run ended
  with, \<^verbatim>\<open>nil\<close> if the run returned without one (or panicked, or has not ended), and the whole
  result is the same whatever error an earlier call had left in the client.
\<close>

theorem Entries_resets_err:
  "Err (Entries_call c) = None \<and>
   (case Entries w c tree start n of
      (ex, c', st) \<Rightarrow> Err c' = (case ex of Some (Returns e) \<Rightarrow> e | _ \<Rightarrow> None)) \<and>
   Entries w (c\<lparr>c_err := old\<rparr>) tree start n = Entries w (c\<lparr>c_err := None\<rparr>) tree start n"
  by (simp add: Entries_def Entries_iterate_def Entries_call_def Err_def
      split: prod.splits exit.splits option.splits)

theorem Entries_resets_err_witness:
  "Err (example_client\<lparr>c_err := Some (HashMismatch 7)\<rparr>) = Some (HashMismatch 7) \<and>
   fst (Entries example_world (example_client\<lparr>c_err := Some (HashMismatch 7)\<rparr>)
          \<lparr>tree_N = 3, tree_Hash = []\<rparr> 1 2) = Some (Returns None) \<and>
   Err (fst (snd (Entries example_world (example_client\<lparr>c_err := Some (HashMismatch 7)\<rparr>)
          \<lparr>tree_N = 3, tree_Hash = []\<rparr> 1 2))) = None"
proof -
  let ?c = "example_client\<lparr>c_err := Some (HashMismatch 7)\<rparr>"
  let ?t = "\<lparr>tree_N = 3, tree_Hash = []\<rparr> :: bytes Tree"
  have a: "Err ?c = Some (HashMismatch 7)" by (simp add: Err_def)
  have b: "fst (Entries example_world ?c ?t 1 2) = Some (Returns None)" by code_simp
  from Entries_resets_err [of ?c example_world ?t 1 2]
  have "Err (fst (snd (Entries example_world ?c ?t 1 2)))
      = (case fst (Entries example_world ?c ?t 1 2) of Some (Returns e) \<Rightarrow> e | _ \<Rightarrow> None)"
    by (simp add: case_prod_beta)
  with b have "Err (fst (snd (Entries example_world ?c ?t 1 2))) = None" by simp
  with a b show ?thesis by simp
qed

subsection \<open>The iterator on \<^verbatim>\<open>int64\<close> and the iterator over the integers\<close>

lemma add64_id: "- (2 ^ 63) \<le> a + b \<Longrightarrow> a + b < 2 ^ 63 \<Longrightarrow> add64 a b = a + b"
  unfolding add64_def by (rule wrap64_id)

lemma sub64_id: "- (2 ^ 63) \<le> a - b \<Longrightarrow> a - b < 2 ^ 63 \<Longrightarrow> sub64 a b = a - b"
  unfolding sub64_def by (rule wrap64_id)

lemma mul64_id: "- (2 ^ 63) \<le> a * b \<Longrightarrow> a * b < 2 ^ 63 \<Longrightarrow> mul64 a b = a * b"
  unfolding mul64_def by (rule wrap64_id)

lemma quot_mul64:
  assumes "0 \<le> a" and "a < 2 ^ 63"
  shows "mul64 (quot a TileWidth) TileWidth = quot a TileWidth * TileWidth"
proof (rule mul64_id)
  from quot_upper_nonneg [OF assms(1)] assms(2) show "quot a TileWidth * TileWidth < 2 ^ 63"
    by simp
  from assms(1) have "0 \<le> a div TileWidth" using TileWidth_pos by (simp add: pos_imp_zdiv_nonneg_iff)
  then have "0 \<le> quot a TileWidth * TileWidth"
    using TileWidth_pos by (simp add: quot_nonneg [OF assms(1)])
  then show "- (2 ^ 63) \<le> quot a TileWidth * TileWidth" by simp
qed

lemma quot_mul_nonneg: "0 \<le> a \<Longrightarrow> 0 \<le> quot a TileWidth * TileWidth"
  using TileWidth_pos by (simp add: quot_nonneg pos_imp_zdiv_nonneg_iff)

lemma quot_mul_dvd: "TileWidth dvd quot a TileWidth * TileWidth"
  by simp

lemma batch_top_eq:
  assumes "0 \<le> base" and "base < 2 ^ 63" and "0 \<le> tree_N tree" and "tree_N tree < 2 ^ 63"
  shows "batch_top tree base = batch_top_Z tree base"
proof -
  let ?q = "quot (tree_N tree) TileWidth * TileWidth"
  have m: "mul64 (quot (tree_N tree) TileWidth) TileWidth = ?q"
    using assms(3,4) by (rule quot_mul64)
  have q0: "0 \<le> ?q" using assms(3) by (rule quot_mul_nonneg)
  have q1: "?q \<le> tree_N tree" using assms(3) by (rule quot_upper_nonneg)
  have "sub64 ?q base = ?q - base"
    using q0 q1 assms by (intro sub64_id) simp_all
  with m show ?thesis by (simp add: batch_top_def batch_top_Z_def Let_def)
qed

lemma batch_tiles_eq:
  assumes "0 \<le> base" and "base + 50 * TileWidth < 2 ^ 63"
  shows "\<forall>i\<in>set is. i < 50 \<Longrightarrow> batch_tiles base top' is = batch_tiles_Z base top' is"
proof (induction "is")
  case Nil
  show ?case by simp
next
  case (Cons i "is")
  from Cons.prems have i: "i < 50" and rest: "\<forall>i\<in>set is. i < 50" by simp_all
  let ?s = "base + int i * TileWidth"
  from i have i1: "int i * TileWidth \<le> 49 * TileWidth" using TileWidth_pos by simp
  have i0: "0 \<le> int i * TileWidth" using TileWidth_pos by simp
  have tw: "TileWidth < 2 ^ 63" by (simp add: TileWidth_def)
  have p63: "(2 :: int) ^ 63 = 9223372036854775808" by simp
  note ar = i0 i1 assms TileWidth_pos p63
  have m: "mul64 (int i) TileWidth = int i * TileWidth"
  proof (rule mul64_id)
    show "- (2 ^ 63) \<le> int i * TileWidth" using ar by linarith
    show "int i * TileWidth < 2 ^ 63" using ar by linarith
  qed
  have s: "add64 base (int i * TileWidth) = ?s"
  proof (rule add64_id)
    show "- (2 ^ 63) \<le> ?s" using ar by linarith
    show "?s < 2 ^ 63" using ar by linarith
  qed
  have e: "add64 ?s TileWidth = ?s + TileWidth"
  proof (rule add64_id)
    show "- (2 ^ 63) \<le> ?s + TileWidth" using ar by linarith
    show "?s + TileWidth < 2 ^ 63" using ar by linarith
  qed
  have d: "sub64 (if ?s + TileWidth > top' then top' else ?s + TileWidth) ?s
      = (if ?s + TileWidth > top' then top' else ?s + TileWidth) - ?s" if "\<not> ?s \<ge> top'"
  proof (rule sub64_id)
    show "- (2 ^ 63) \<le> (if ?s + TileWidth > top' then top' else ?s + TileWidth) - ?s"
      using that TileWidth_pos by (simp split: if_splits)
    show "(if ?s + TileWidth > top' then top' else ?s + TileWidth) - ?s < 2 ^ 63"
      using that tw by (simp split: if_splits)
  qed
  show ?case
  proof (cases "?s \<ge> top'")
    case True
    then show ?thesis by (simp add: m s Let_def)
  next
    case False
    from d [OF False] False Cons.IH [OF rest] show ?thesis
      by (simp add: m s e Let_def)
  qed
qed

lemma batch_indexes_eq:
  assumes "\<forall>u\<in>set tiles. 0 \<le> N u * TileWidth \<and> N u * TileWidth + W u < 2 ^ 63"
  shows "batch_indexes w tiles = batch_indexes_Z w tiles"
proof -
  have pt: "StoredHashIndex w 0 (add64 (mul64 (N u) TileWidth) (int i))
      = StoredHashIndex w 0 (N u * TileWidth + int i)"
    if u: "u \<in> set tiles" and "i \<in> set [0..<nat (W u)]" for u i
  proof -
    from that(2) have i: "int i < W u" by auto
    from assms u have a: "0 \<le> N u * TileWidth" and b: "N u * TileWidth + W u < 2 ^ 63" by auto
    from a b i have "mul64 (N u) TileWidth = N u * TileWidth" by (intro mul64_id) simp_all
    moreover from a b i have "add64 (N u * TileWidth) (int i) = N u * TileWidth + int i"
      by (intro add64_id) simp_all
    ultimately show ?thesis by simp
  qed
  show ?thesis
    unfolding batch_indexes_def batch_indexes_Z_def
    by (rule arg_cong [of _ _ concat], rule map_cong [OF refl], rule map_cong [OF refl], rule pt)
qed

lemma entry_step_eq:
  assumes "- (2 ^ 63) \<le> i - base" and "i - base < 2 ^ 63"
  shows "entry_step w c hashes base tN i d st = entry_step_Z w c hashes base tN i d st"
  unfolding entry_step_def entry_step_Z_def sub64_id [OF assms] ..

lemma entries_loop_eq:
  "\<forall>i\<in>set is. - (2 ^ 63) \<le> i - base \<and> i - base < 2 ^ 63 \<Longrightarrow>
     entries_loop w c hashes base tN is d st = entries_loop_Z w c hashes base tN is d st"
proof (induction "is" arbitrary: d st)
  case Nil
  show ?case by simp
next
  case (Cons i "is")
  from Cons.prems have "entry_step w c hashes base tN i d st = entry_step_Z w c hashes base tN i d st"
    by (intro entry_step_eq) simp_all
  moreover from Cons.prems have "\<And>d st. entries_loop w c hashes base tN is d st
      = entries_loop_Z w c hashes base tN is d st"
    by (intro Cons.IH) simp
  ultimately show ?case by (simp split: prod.splits sum.splits)
qed

lemma tile_step_eq:
  assumes "0 \<le> base" and "base \<le> N u * TileWidth" and "0 \<le> W u"
    and "N u * TileWidth + W u < 2 ^ 63"
  shows "tile_step w c hashes base tdata ti u st = tile_step_Z w c hashes base tdata ti u st"
proof -
  from assms have m: "mul64 (N u) TileWidth = N u * TileWidth" by (intro mul64_id) simp_all
  from assms have a: "add64 (N u * TileWidth) (W u) = N u * TileWidth + W u"
    by (intro add64_id) simp_all
  have "entries_loop w c hashes base (N u) [N u * TileWidth..N u * TileWidth + W u - 1] d st
      = entries_loop_Z w c hashes base (N u) [N u * TileWidth..N u * TileWidth + W u - 1] d st"
    for d
    using assms by (intro entries_loop_eq) auto
  then show ?thesis
    by (simp add: tile_step_def tile_step_Z_def m a Let_def split: prod.splits sum.splits)
qed

lemma tiles_loop_eq:
  assumes "0 \<le> base"
  shows "\<forall>(ti, u)\<in>set its. base \<le> N u * TileWidth \<and> 0 \<le> W u \<and> N u * TileWidth + W u < 2 ^ 63 \<Longrightarrow>
     tiles_loop w c hashes base tdata its st = tiles_loop_Z w c hashes base tdata its st"
proof (induction its arbitrary: st)
  case Nil
  show ?case by simp
next
  case (Cons tu its)
  obtain ti u where tu: "tu = (ti, u)" by (cases tu)
  from Cons.prems tu have "tile_step w c hashes base tdata ti u st
      = tile_step_Z w c hashes base tdata ti u st"
    by (intro tile_step_eq assms) simp_all
  moreover from Cons.prems have "\<And>st. tiles_loop w c hashes base tdata its st
      = tiles_loop_Z w c hashes base tdata its st"
    by (intro Cons.IH) simp
  ultimately show ?case by (simp add: tu split: prod.splits sum.splits)
qed

text \<open>The tiles of a batch.\<close>

lemma batch_tiles_Z_elem:
  assumes "u \<in> set (batch_tiles_Z base top' is)" and "TileWidth dvd base"
  shows "\<exists>i\<in>set is. N u * TileWidth = base + int i * TileWidth \<and> H u = TileHeight \<and> L u = - 1 \<and>
           N u * TileWidth < top' \<and> W u = min TileWidth (top' - N u * TileWidth)"
  using assms(1)
proof (induction "is")
  case Nil
  then show ?case by simp
next
  case (Cons i "is")
  let ?s = "base + int i * TileWidth"
  from assms(2) have "TileWidth dvd ?s" by simp
  then have q: "quot ?s TileWidth * TileWidth = ?s" by (rule quot_exact)
  show ?case
  proof (cases "?s \<ge> top'")
    case True
    with Cons.prems show ?thesis by simp
  next
    case False
    let ?e = "if ?s + TileWidth > top' then top' else ?s + TileWidth"
    let ?u = "\<lparr>H = TileHeight, L = - 1, N = quot ?s TileWidth, W = ?e - ?s\<rparr>"
    from False Cons.prems have "u = ?u \<or> u \<in> set (batch_tiles_Z base top' is)"
      by (simp add: Let_def)
    then show ?thesis
    proof
      assume u: "u = ?u"
      have "N ?u * TileWidth = ?s" using q by simp
      moreover have "W ?u = min TileWidth (top' - ?s)" by (simp add: min_def)
      ultimately have "N u * TileWidth = base + int i * TileWidth \<and> H u = TileHeight \<and> L u = - 1 \<and>
           N u * TileWidth < top' \<and> W u = min TileWidth (top' - N u * TileWidth)"
        using False unfolding u by simp
      then show ?thesis by auto
    next
      assume "u \<in> set (batch_tiles_Z base top' is)"
      from Cons.IH [OF this] show ?thesis by auto
    qed
  qed
qed

lemma Entries_batch_eq:
  assumes "0 \<le> it_start st" and "it_start st + 50 * TileWidth < 2 ^ 63"
    and "0 \<le> tree_N tree" and "tree_N tree < 2 ^ 63"
  shows "Entries_batch w c tree st = Entries_batch_Z w c tree st"
proof -
  let ?base = "quot (it_start st) TileWidth * TileWidth"
  let ?top = "batch_top_Z tree ?base"
  let ?tiles = "batch_tiles_Z ?base ?top [0..<50]"
  have tw: "0 < TileWidth" by (rule TileWidth_pos)
  have b0: "0 \<le> ?base" using assms(1) by (rule quot_mul_nonneg)
  have b1: "?base \<le> it_start st" using assms(1) by (rule quot_upper_nonneg)
  from b1 assms(2) tw have b2: "?base < 2 ^ 63" by simp
  from b1 assms(2) have b3: "?base + 50 * TileWidth < 2 ^ 63" by simp
  have mb: "mul64 (quot (it_start st) TileWidth) TileWidth = ?base"
    using assms(1) b0 b1 b2 by (intro mul64_id) simp_all
  have tp: "batch_top tree ?base = ?top" using b0 b2 assms(3,4) by (rule batch_top_eq)
  have ts: "batch_tiles ?base ?top [0..<50] = ?tiles"
    using b0 b3 by (rule batch_tiles_eq) simp
  have el: "?base \<le> N u * TileWidth \<and> 0 \<le> W u \<and> N u * TileWidth + W u < 2 ^ 63"
    if u: "u \<in> set ?tiles" for u
  proof -
    from batch_tiles_Z_elem [OF u quot_mul_dvd] obtain i where
      i: "i \<in> set [0..<50]" and n: "N u * TileWidth = ?base + int i * TileWidth"
      and lt: "N u * TileWidth < ?top" and wd: "W u = min TileWidth (?top - N u * TileWidth)"
      by blast
    from n tw have "?base \<le> N u * TileWidth" by simp
    moreover from lt wd tw have "0 \<le> W u" by simp
    moreover have "N u * TileWidth + W u < 2 ^ 63"
    proof -
      from wd have "W u \<le> TileWidth" by simp
      moreover from i have "int i * TileWidth \<le> 49 * TileWidth" using tw by simp
      ultimately have "N u * TileWidth + W u \<le> ?base + 50 * TileWidth" using n by simp
      with b3 show ?thesis by simp
    qed
    ultimately show ?thesis by simp
  qed
  have ix: "batch_indexes w ?tiles = batch_indexes_Z w ?tiles"
  proof (rule batch_indexes_eq, rule ballI)
    fix u assume "u \<in> set ?tiles"
    from el [OF this] b0 show "0 \<le> N u * TileWidth \<and> N u * TileWidth + W u < 2 ^ 63" by simp
  qed
  have tl: "tiles_loop w c hashes ?base tdata (enumerate 0 ?tiles) st1
      = tiles_loop_Z w c hashes ?base tdata (enumerate 0 ?tiles) st1" for hashes tdata st1
  proof (rule tiles_loop_eq [OF b0], rule ballI)
    fix tu assume "tu \<in> set (enumerate 0 ?tiles)"
    then have "fst tu < length ?tiles" and "?tiles ! fst tu = snd tu"
      by (auto simp: in_set_enumerate_eq)
    from nth_mem [OF this(1)] this(2) have "snd tu \<in> set ?tiles" by simp
    from el [OF this]
    show "case tu of (ti, u) \<Rightarrow> ?base \<le> N u * TileWidth \<and> 0 \<le> W u \<and> N u * TileWidth + W u < 2 ^ 63"
      by (simp add: case_prod_beta)
  qed
  show ?thesis
  proof (cases "ctxErr w (it_polls st)")
    case (Some e)
    then show ?thesis by (simp add: Entries_batch_def Entries_batch_Z_def poll_def)
  next
    case None
    then show ?thesis
      by (simp add: Entries_batch_def Entries_batch_Z_def poll_def Let_def mb tp ts ix tl
          split: prod.splits sum.splits)
  qed
qed


lemma batch_top_Z_le_N: "0 \<le> tree_N tree \<Longrightarrow> batch_top_Z tree base \<le> tree_N tree"
  using quot_upper_nonneg [of "tree_N tree"] by (simp add: batch_top_Z_def Let_def)

lemma Entries_loop_eq:
  assumes n0: "0 \<le> tree_N tree" and n1: "tree_N tree + 51 * TileWidth < 2 ^ 63"
  shows "0 \<le> it_start st \<Longrightarrow> it_start st \<le> tree_N tree \<Longrightarrow>
    \<exists>k. \<forall>n\<ge>k. Entries_loop w c tree n st
      = (Some (fst (Entries_loop_Z w c tree st)), snd (Entries_loop_Z w c tree st))"
  using assms
proof (induction w c tree st rule: Entries_loop_Z.induct)
  case (1 w c tree st)
  note s0 = "1.prems"(1) and s1 = "1.prems"(2) and n0 = "1.prems"(3) and n1 = "1.prems"(4)
  have tw: "0 < TileWidth" by (rule TileWidth_pos)
  obtain r st1 where b: "Entries_batch_Z w c tree st = (r, st1)"
    by (cases "Entries_batch_Z w c tree st")
  from s1 n1 tw have "it_start st + 50 * TileWidth < 2 ^ 63" by simp
  moreover from n1 tw have "tree_N tree < 2 ^ 63" by simp
  ultimately have e: "Entries_batch w c tree st = Entries_batch_Z w c tree st"
    using s0 n0 by (intro Entries_batch_eq)
  show ?case
  proof (cases r)
    case (Inl ex)
    with b have z: "Entries_loop_Z w c tree st = (ex, st1)" by (simp add: Entries_loop_Z.simps)
    have "\<forall>n\<ge>1. Entries_loop w c tree n st = (Some ex, st1)"
    proof (intro allI impI)
      fix n :: nat assume "1 \<le> n"
      then obtain m where "n = Suc m" by (cases n) simp_all
      with e b Inl show "Entries_loop w c tree n st = (Some ex, st1)" by simp
    qed
    with z show ?thesis by auto
  next
    case (Inr top')
    show ?thesis
    proof (cases "it_start st1 = top'")
      case True
      with b Inr have z: "Entries_loop_Z w c tree st = (Returns None, st1)"
        by (simp add: Entries_loop_Z.simps)
      have "\<forall>n\<ge>1. Entries_loop w c tree n st = (Some (Returns None), st1)"
      proof (intro allI impI)
        fix n :: nat assume "1 \<le> n"
        then obtain m where "n = Suc m" by (cases n) simp_all
        with e b Inr True show "Entries_loop w c tree n st = (Some (Returns None), st1)" by simp
      qed
      with z show ?thesis by auto
    next
      case False
      with b Inr have z: "Entries_loop_Z w c tree st = Entries_loop_Z w c tree st1"
        by (simp add: Entries_loop_Z.simps)
      from b Inr have b': "Entries_batch_Z w c tree st = (Inr top', st1)" by simp
      note pr = Entries_batch_Z_progress [OF b']
      from pr False have lt: "it_start st < it_start st1" by simp
      from pr batch_top_Z_le_N [OF n0, of "quot (it_start st) TileWidth * TileWidth"]
      have le: "it_start st1 \<le> tree_N tree" by simp
      from lt s0 have ge: "0 \<le> it_start st1" by simp
      from "1.IH" [OF b [symmetric] Inr False ge le n0 n1] obtain k where
        k: "\<forall>n\<ge>k. Entries_loop w c tree n st1
          = (Some (fst (Entries_loop_Z w c tree st1)), snd (Entries_loop_Z w c tree st1))"
        by blast
      have "\<forall>n\<ge>Suc k. Entries_loop w c tree n st
          = (Some (fst (Entries_loop_Z w c tree st)), snd (Entries_loop_Z w c tree st))"
      proof (intro allI impI)
        fix n assume "Suc k \<le> n"
        then obtain m where m: "n = Suc m" "k \<le> m" by (cases n) simp_all
        from k m(2) have "Entries_loop w c tree m st1
          = (Some (fst (Entries_loop_Z w c tree st1)), snd (Entries_loop_Z w c tree st1))"
          by simp
        with e b Inr False m(1) z show "Entries_loop w c tree n st
          = (Some (fst (Entries_loop_Z w c tree st)), snd (Entries_loop_Z w c tree st))"
          by simp
      qed
      then show ?thesis by blast
    qed
  qed
qed

text \<open>
  For a tree of less than \<open>2^63 - 51 * TileWidth\<close> entries and a start in the tree, a run of
  the iterator ends, and ends as the run over the integers does.
\<close>

lemma Entries_eq:
  assumes "0 \<le> start" and "start \<le> tree_N tree" and "tree_N tree + 51 * TileWidth < 2 ^ 63"
  shows "\<exists>k. \<forall>n\<ge>k. Entries w c tree start n =
     (Some (fst (Entries_Z w c tree start)), snd (Entries_Z w c tree start))"
proof -
  let ?st = "\<lparr>it_src = c_tr c, it_polls = 0, it_start = start, it_yielded = [], it_cuts = []\<rparr>"
  from assms have n0: "0 \<le> tree_N tree" by simp
  from Entries_loop_eq [OF n0 assms(3), of ?st w "Entries_call c"] assms(1,2) obtain k where
    k: "\<forall>n\<ge>k. Entries_loop w (Entries_call c) tree n ?st
      = (Some (fst (Entries_loop_Z w (Entries_call c) tree ?st)),
         snd (Entries_loop_Z w (Entries_call c) tree ?st))" by auto
  have "\<forall>n\<ge>k. Entries w c tree start n =
     (Some (fst (Entries_Z w c tree start)), snd (Entries_Z w c tree start))"
  proof (intro allI impI)
    fix n assume "k \<le> n"
    with k have "Entries_loop w (Entries_call c) tree n ?st
      = (Some (fst (Entries_loop_Z w (Entries_call c) tree ?st)),
         snd (Entries_loop_Z w (Entries_call c) tree ?st))" by simp
    then show "Entries w c tree start n =
     (Some (fst (Entries_Z w c tree start)), snd (Entries_Z w c tree start))"
      by (cases "Entries_loop_Z w (Entries_call c) tree ?st")
         (simp add: Entries_def Entries_iterate_def Entries_Z_def Entries_call_def
           split: exit.splits option.splits)
  qed
  then show ?thesis by blast
qed

subsection \<open>The indexes of the entries yielded\<close>

lemma upto_snoc: "s0 \<le> i \<Longrightarrow> [s0..i - 1] @ [i] = [s0..i]"
  using upto_rec2 [of s0 i] by simp

lemma entry_step_Z_contig:
  assumes r: "entry_step_Z w c hashes base tN i d st = (r, st')"
    and sk: "it_start st = s0 \<or> (s0 \<le> it_start st \<and> it_start st \<le> i)"
    and y: "map fst (it_yielded st) = [s0..max s0 i - 1]"
    and t: "tN * TileWidth \<le> i" "i < tN * TileWidth + TileWidth"
  shows "case r of
           Inr rest \<Rightarrow> map fst (it_yielded st') = [s0..max s0 (i + 1) - 1]
         | Inl ex \<Rightarrow> \<exists>p. i \<le> p \<and> p \<le> i + 1 \<and> ends_at w s0 st' ex p"
proof -
  have fails: ?thesis if "r = Inl ex" "ex \<noteq> Returns None" "failed_at ex i (it_start st')"
    "it_yielded st' = it_yielded st" for ex
  proof -
    from that y have "ends_at w s0 st' ex i" by (simp add: ends_at_def)
    then have "\<exists>p. i \<le> p \<and> p \<le> i + 1 \<and> ends_at w s0 st' ex p"
      by (intro exI [of _ i]) simp
    with that(1) show ?thesis by simp
  qed
  from r show ?thesis
  proof (cases rule: entry_step_Z_cases)
    case (ctx e)
    show ?thesis by (rule fails [OF ctx(1)]) (simp_all add: failed_at_def ctx(2))
  next
    case eod
    show ?thesis by (rule fails [OF eod(2)]) (simp_all add: failed_at_def eod(3) t)
  next
    case (cutfail e)
    show ?thesis by (rule fails [OF cutfail(3)]) (simp_all add: failed_at_def cutfail(4))
  next
    case (panics entry rh rest p)
    show ?thesis by (rule fails [OF panics(4)]) (simp_all add: failed_at_def panics(5))
  next
    case (mismatch entry rh rest h)
    show ?thesis by (rule fails [OF mismatch(5)]) (simp_all add: failed_at_def mismatch(6))
  next
    case (skip entry rh rest)
    from skip(4) sk have "i < s0" by auto
    then have "max s0 (i + 1) = max s0 i" by simp
    with skip y show ?thesis by simp
  next
    case (yielded entry rh rest)
    from yielded(4) sk have ge: "s0 \<le> i" by auto
    then have m: "max s0 i = i" "max s0 (i + 1) = i + 1" by simp_all
    from y m have "map fst (it_yielded st @ [(i, entry)]) = [s0..i - 1] @ [i]" by simp
    also have "\<dots> = [s0..i]" using ge by (rule upto_snoc)
    finally show ?thesis using yielded m by simp
  next
    case (stopped entry rh rest)
    from stopped(4) sk have ge: "s0 \<le> i" by auto
    then have m: "max s0 i = i" "max s0 (i + 1) = i + 1" by simp_all
    from y m have "map fst (it_yielded st @ [(i, entry)]) = [s0..i - 1] @ [i]" by simp
    also have "\<dots> = [s0..i]" using ge by (rule upto_snoc)
    finally have "map fst (it_yielded st') = [s0..max s0 (i + 1) - 1]"
      using stopped m by simp
    with stopped(5,7) have "ends_at w s0 st' (Returns None) (i + 1)"
      by (simp add: ends_at_def)
    then have "\<exists>p. i \<le> p \<and> p \<le> i + 1 \<and> ends_at w s0 st' (Returns None) p"
      by (intro exI [of _ "i + 1"]) simp
    with stopped(6) show ?thesis by simp
  qed
qed

lemma entries_loop_Z_contig:
  assumes "entries_loop_Z w c hashes base tN [i..b] d st = (r, st')"
    and "it_start st = s0 \<or> (s0 \<le> it_start st \<and> it_start st \<le> i)"
    and "map fst (it_yielded st) = [s0..max s0 i - 1]"
    and "tN * TileWidth \<le> i" and "b < tN * TileWidth + TileWidth" and "i \<le> b + 1"
  shows "case r of
           Inr rest \<Rightarrow> map fst (it_yielded st') = [s0..max s0 (b + 1) - 1]
         | Inl ex \<Rightarrow> \<exists>p. i \<le> p \<and> p \<le> b + 1 \<and> ends_at w s0 st' ex p"
  using assms
proof (induction "nat (b + 1 - i)" arbitrary: i d st)
  case 0
  then have e: "[i..b] = []" and ib: "i = b + 1" by simp_all
  from "0.prems"(1) have "r = Inr d" "st' = st" unfolding e by simp_all
  with "0.prems"(3) ib show ?case by simp
next
  case (Suc n)
  then have ib: "i \<le> b" and n: "n = nat (b + 1 - (i + 1))" by simp_all
  then have upt: "[i..b] = i # [i + 1..b]" by (simp add: upto_rec1)
  obtain r1 st1 where s: "entry_step_Z w c hashes base tN i d st = (r1, st1)"
    by (cases "entry_step_Z w c hashes base tN i d st")
  from ib Suc.prems(5) have ilt: "i < tN * TileWidth + TileWidth" by simp
  note c1 = entry_step_Z_contig [OF s Suc.prems(2,3,4) ilt]
  show ?case
  proof (cases r1)
    case (Inl ex)
    from Suc.prems(1) s Inl have e: "r = Inl ex" "st' = st1" unfolding upt by simp_all
    from c1 Inl obtain p where "i \<le> p" "p \<le> i + 1" "ends_at w s0 st1 ex p" by auto
    with ib have "\<exists>p. i \<le> p \<and> p \<le> b + 1 \<and> ends_at w s0 st1 ex p"
      by (intro exI [of _ p]) simp
    with e show ?thesis by simp
  next
    case (Inr rest)
    from Suc.prems(1) s Inr have l: "entries_loop_Z w c hashes base tN [i + 1..b] rest st1 = (r, st')"
      unfolding upt by simp
    from c1 Inr have y1: "map fst (it_yielded st1) = [s0..max s0 (i + 1) - 1]" by simp
    from entry_step_Z_start [OF s] Suc.prems(2)
    have sk1: "it_start st1 = s0 \<or> (s0 \<le> it_start st1 \<and> it_start st1 \<le> i + 1)" by auto
    from Suc.prems(4) have t1: "tN * TileWidth \<le> i + 1" by simp
    from ib have ib1: "i + 1 \<le> b + 1" by simp
    note ih = Suc.hyps(1) [OF n l sk1 y1 t1 Suc.prems(5) ib1]
    show ?thesis
    proof (cases r)
      case (Inl ex)
      with ih obtain p where "i + 1 \<le> p" "p \<le> b + 1" "ends_at w s0 st' ex p" by auto
      then have "\<exists>p. i \<le> p \<and> p \<le> b + 1 \<and> ends_at w s0 st' ex p"
        by (intro exI [of _ p]) simp
      with Inl show ?thesis by simp
    next
      case (Inr d')
      with ih show ?thesis by simp
    qed
  qed
qed

text \<open>
  A tile \<open>u\<close> of the batch, once the pairs up to its first entry have been yielded.
\<close>

lemma tile_step_Z_contig:
  assumes r: "tile_step_Z w c hashes base tdata ti u st = (r, st')"
    and sk: "it_start st = s0 \<or> (s0 \<le> it_start st \<and> it_start st \<le> N u * TileWidth)"
    and y: "map fst (it_yielded st) = [s0..max s0 (N u * TileWidth) - 1]"
    and w0: "0 \<le> W u" and w1: "W u \<le> TileWidth"
  shows "case r of
           Inr v \<Rightarrow> map fst (it_yielded st') = [s0..max s0 (N u * TileWidth + W u) - 1] \<and>
                    it_start st' = N u * TileWidth + W u
         | Inl ex \<Rightarrow> \<exists>p. N u * TileWidth \<le> p \<and> p \<le> N u * TileWidth + W u \<and>
                         ends_at w s0 st' ex p"
  using r
proof (cases rule: tile_step_Z_cases)
  case (panics p)
  with y have "ends_at w s0 st' (Panics p) (N u * TileWidth)"
    by (simp add: ends_at_def failed_at_def)
  with w0 have "\<exists>j. N u * TileWidth \<le> j \<and> j \<le> N u * TileWidth + W u \<and>
      ends_at w s0 st' (Panics p) j"
    by (intro exI [of _ "N u * TileWidth"]) simp
  with panics show ?thesis by simp
next
  case (inner ex)
  have b: "N u * TileWidth + W u - 1 < N u * TileWidth + TileWidth" using w1 by simp
  have ib: "N u * TileWidth \<le> N u * TileWidth + W u - 1 + 1" using w0 by simp
  from entries_loop_Z_contig [OF inner(2) sk y order_refl b ib]
  obtain p where "N u * TileWidth \<le> p" "p \<le> N u * TileWidth + W u - 1 + 1"
    "ends_at w s0 st' ex p" by auto
  then have "\<exists>p. N u * TileWidth \<le> p \<and> p \<le> N u * TileWidth + W u \<and> ends_at w s0 st' ex p"
    by (intro exI [of _ p]) simp
  with inner(3) show ?thesis by simp
next
  case (leftover d')
  have b: "N u * TileWidth + W u - 1 < N u * TileWidth + TileWidth" using w1 by simp
  have ib: "N u * TileWidth \<le> N u * TileWidth + W u - 1 + 1" using w0 by simp
  from entries_loop_Z_contig [OF leftover(2) sk y order_refl b ib]
  have "map fst (it_yielded st') = [s0..max s0 (N u * TileWidth + W u) - 1]" by simp
  moreover have "failed_at (Returns (Some (LeftoverData (N u)))) (N u * TileWidth + W u) s" for s
    using w0 w1 by (simp add: failed_at_def)
  ultimately have "ends_at w s0 st' (Returns (Some (LeftoverData (N u)))) (N u * TileWidth + W u)"
    by (simp add: ends_at_def)
  with w0 have "\<exists>p. N u * TileWidth \<le> p \<and> p \<le> N u * TileWidth + W u \<and>
      ends_at w s0 st' (Returns (Some (LeftoverData (N u)))) p"
    by (intro exI [of _ "N u * TileWidth + W u"]) simp
  with leftover(4) show ?thesis by simp
next
  case (complete st1)
  have b: "N u * TileWidth + W u - 1 < N u * TileWidth + TileWidth" using w1 by simp
  have ib: "N u * TileWidth \<le> N u * TileWidth + W u - 1 + 1" using w0 by simp
  from entries_loop_Z_contig [OF complete(2) sk y order_refl b ib]
  have "map fst (it_yielded st1) = [s0..max s0 (N u * TileWidth + W u) - 1]" by simp
  with complete(3,4) show ?thesis by simp
qed


lemma batch_tiles_Z_consecutive:
  assumes "TileWidth dvd base"
  shows "consecutive (base + int k * TileWidth) e (batch_tiles_Z base e [k..<n])"
proof (induction "n - k" arbitrary: k)
  case 0
  then have e: "[k..<n] = []" by simp
  show ?case unfolding e by simp
next
  case (Suc m)
  then have kn: "k < n" and m: "m = n - Suc k" by simp_all
  then have upt: "[k..<n] = k # [Suc k..<n]" by (simp add: upt_conv_Cons)
  let ?s = "base + int k * TileWidth"
  from assms have "TileWidth dvd ?s" by simp
  then have q: "quot ?s TileWidth * TileWidth = ?s" by (rule quot_exact)
  have nx: "base + int (Suc k) * TileWidth = ?s + TileWidth" by (simp add: algebra_simps)
  show ?case
  proof (cases "?s \<ge> e")
    case True
    then show ?thesis unfolding upt by simp
  next
    case False
    from Suc.hyps(1) [OF m] have "consecutive (?s + TileWidth) e (batch_tiles_Z base e [Suc k..<n])"
      unfolding nx .
    with False q show ?thesis unfolding upt by (simp add: Let_def min_def)
  qed
qed

lemma tiles_loop_Z_contig:
  assumes "tiles_loop_Z w c hashes base tdata its st = (r, st')"
    and "consecutive a e (map snd its)"
    and "it_start st = s0 \<or> (s0 \<le> it_start st \<and> it_start st \<le> a)"
    and "map fst (it_yielded st) = [s0..max s0 a - 1]"
    and "s0 < a + TileWidth" and "s0 \<le> e"
  shows "case r of
           Inr v \<Rightarrow> its \<noteq> [] \<longrightarrow>
             it_start st' = min (a + int (length its) * TileWidth) e \<and>
             map fst (it_yielded st') = [s0..it_start st' - 1] \<and> s0 \<le> it_start st'
         | Inl ex \<Rightarrow> \<exists>p. p \<le> e \<and> ends_at w s0 st' ex p"
  using assms(1-5)
proof (induction its arbitrary: a st)
  case Nil
  then have "r = Inr ()" by simp
  then show ?case by simp
next
  case (Cons tu its)
  have tw: "0 < TileWidth" by (rule TileWidth_pos)
  obtain ti u where tu: "tu = (ti, u)" by (cases tu)
  from Cons.prems(2) tu have na: "N u * TileWidth = a" and ae: "a < e"
    and wu: "W u = min TileWidth (e - a)" and rest: "consecutive (a + TileWidth) e (map snd its)"
    by simp_all
  from wu ae have w0: "0 \<le> W u" and w1: "W u \<le> TileWidth" using tw by simp_all
  from wu have end1: "a + W u = min (a + TileWidth) e" by (simp add: min_def)
  with Cons.prems(5) assms(6) have ge: "s0 \<le> a + W u" by simp
  obtain r1 st1 where s: "tile_step_Z w c hashes base tdata ti u st = (r1, st1)"
    by (cases "tile_step_Z w c hashes base tdata ti u st")
  note c1 = tile_step_Z_contig [OF s Cons.prems(3,4) [folded na] w0 w1]
  show ?case
  proof (cases r1)
    case (Inl ex)
    from Cons.prems(1) s Inl tu have e: "r = Inl ex" "st' = st1" by simp_all
    from c1 Inl obtain p where "p \<le> N u * TileWidth + W u" "ends_at w s0 st1 ex p" by auto
    with na end1 have "\<exists>p. p \<le> e \<and> ends_at w s0 st1 ex p"
      by (intro exI [of _ p]) simp
    with e show ?thesis by simp
  next
    case (Inr v1)
    from Cons.prems(1) s Inr tu have l: "tiles_loop_Z w c hashes base tdata its st1 = (r, st')"
      by simp
    from c1 Inr na have y1: "map fst (it_yielded st1) = [s0..max s0 (a + W u) - 1]"
      and s1: "it_start st1 = a + W u" by simp_all
    show ?thesis
    proof (cases its)
      case Nil
      with l have e: "r = Inr ()" "st' = st1" by simp_all
      from y1 ge s1 have "map fst (it_yielded st1) = [s0..it_start st1 - 1]" by simp
      with e s1 end1 ge Nil show ?thesis by simp
    next
      case (Cons tu2 its2)
      with rest have "a + TileWidth < e" by (cases tu2) simp
      with wu have wfull: "W u = TileWidth" by simp
      with s1 have s1': "it_start st1 = a + TileWidth" by simp
      from ge wfull have ge': "s0 \<le> a + TileWidth" by simp
      from s1' ge' have sk1: "it_start st1 = s0 \<or> (s0 \<le> it_start st1 \<and> it_start st1 \<le> a + TileWidth)"
        by simp
      from y1 wfull have y1': "map fst (it_yielded st1) = [s0..max s0 (a + TileWidth) - 1]" by simp
      from ge' tw have lt: "s0 < a + TileWidth + TileWidth" by simp
      note ih = Cons.IH [OF l rest sk1 y1' lt]
      show ?thesis
      proof (cases r)
        case (Inl ex)
        with ih show ?thesis by simp
      next
        case (Inr v)
        from Cons have ne: "its \<noteq> []" by simp
        from ih [unfolded Inr sum.case, rule_format, OF ne]
        have a1: "it_start st' = min (a + TileWidth + int (length its) * TileWidth) e"
          and a2: "map fst (it_yielded st') = [s0..it_start st' - 1]"
          and a3: "s0 \<le> it_start st'" by blast+
        have "a + TileWidth + int (length its) * TileWidth
            = a + int (length (tu # its)) * TileWidth" by (simp add: algebra_simps)
        with a1 have "it_start st' = min (a + int (length (tu # its)) * TileWidth) e"
          by (simp only:)
        with a2 a3 have "it_start st' = min (a + int (length (tu # its)) * TileWidth) e \<and>
             map fst (it_yielded st') = [s0..it_start st' - 1] \<and> s0 \<le> it_start st'"
          by (intro conjI)
        then show ?thesis unfolding Inr sum.case by blast
      qed
    qed
  qed
qed


text \<open>What the invariant of the outer loop says of the batch that begins.\<close>

lemma div_same_tile:
  "(n :: int) div TileWidth * TileWidth \<le> s \<Longrightarrow> s \<le> n \<Longrightarrow> s div TileWidth = n div TileWidth"
  unfolding TileWidth_def by simp

lemma div_mult_le: "(n :: int) div TileWidth * TileWidth \<le> n"
  unfolding TileWidth_def by simp

lemma div_mult_gt: "(n :: int) < n div TileWidth * TileWidth + TileWidth"
  unfolding TileWidth_def by simp

lemma emitEnd_le: "emitEnd n s \<le> n"
  using div_mult_le [of n] by (simp add: emitEnd_def Let_def)

lemma emitEnd_ge: "s \<le> n \<Longrightarrow> s \<le> emitEnd n s"
  by (simp add: emitEnd_def Let_def)

lemma head_facts:
  assumes s0: "0 \<le> s0" "s0 \<le> tree_N tree" and inv: "head_inv tree s0 st"
  defines "base \<equiv> quot (it_start st) TileWidth * TileWidth"
  defines "e \<equiv> emitEnd (tree_N tree) s0"
  shows "TileWidth dvd base" and "base \<le> it_start st" and "s0 < base + TileWidth"
    and "s0 \<le> it_start st" and "it_start st \<le> e" and "batch_top_Z tree base = e"
    and "it_start st = s0 \<or> (s0 \<le> it_start st \<and> it_start st \<le> base)"
    and "map fst (it_yielded st) = [s0..max s0 base - 1]"
    and "e \<le> base \<Longrightarrow> it_start st = e"
    and "tree_N tree div TileWidth * TileWidth \<le> s0 \<Longrightarrow> e < base + TileWidth"
    and "s0 < tree_N tree div TileWidth * TileWidth \<Longrightarrow> e = tree_N tree div TileWidth * TileWidth"
proof -
  let ?n = "tree_N tree"
  let ?m = "?n div TileWidth * TileWidth"
  let ?i = "it_start st"
  have tw: "0 < TileWidth" by (rule TileWidth_pos)
  from inv have c: "?i = s0 \<or> (TileWidth dvd ?i \<and> s0 < ?i \<and> ?i < ?m)"
    and y: "map fst (it_yielded st) = [s0..?i - 1]" by (simp_all add: head_inv_def)
  from c s0 have i0: "0 \<le> ?i" by auto
  from i0 have b: "base = ?i div TileWidth * TileWidth" by (simp add: base_def quot_nonneg)
  from s0 have n0: "0 \<le> ?n" by simp
  have qn: "quot ?n TileWidth * TileWidth = ?m" unfolding quot_nonneg [OF n0] ..
  show d: "TileWidth dvd base" by (simp add: base_def)
  show bl: "base \<le> ?i" unfolding b by (rule div_mult_le)
  from c show ge: "s0 \<le> ?i" by auto
  have il: "?i < base + TileWidth" unfolding b by (rule div_mult_gt)
  with ge show lt: "s0 < base + TileWidth" by simp
  have m1: "e = ?m" if "s0 < ?m" using that by (simp add: e_def emitEnd_def Let_def)
  have m2: "e = ?n" if "?m \<le> s0" using that by (simp add: e_def emitEnd_def Let_def)
  show "s0 < ?m \<Longrightarrow> e = ?m" by (rule m1)
  have bm: "base = ?m" if "?m \<le> s0"
  proof -
    from c that have "?i = s0" by auto
    with div_same_tile [OF that s0(2)] show ?thesis by (simp add: b)
  qed
  show "?m \<le> s0 \<Longrightarrow> e < base + TileWidth"
    using m2 bm div_mult_gt [of ?n] by simp
  show ie: "?i \<le> e"
  proof (cases "s0 < ?m")
    case True
    with c m1 show ?thesis by auto
  next
    case False
    with c have "?i = s0" by auto
    with False m2 s0(2) show ?thesis by simp
  qed
  show tp: "batch_top_Z tree base = e"
  proof (cases "s0 < ?m")
    case True
    from c True bl have "base < ?m" by auto
    with m1 [OF True] show ?thesis by (simp add: batch_top_Z_def Let_def qn)
  next
    case False
    then have f: "?m \<le> s0" by simp
    from bm [OF f] m2 [OF f] show ?thesis by (simp add: batch_top_Z_def Let_def qn)
  qed
  show sk: "?i = s0 \<or> (s0 \<le> ?i \<and> ?i \<le> base)"
  proof (cases "?i = s0")
    case True
    then show ?thesis by simp
  next
    case False
    with c have "TileWidth dvd ?i" "s0 < ?i" by auto
    then have "base = ?i" by (simp add: b)
    with \<open>s0 < ?i\<close> show ?thesis by simp
  qed
  from sk bl have "max s0 base = ?i" by auto
  with y show "map fst (it_yielded st) = [s0..max s0 base - 1]" by simp
  show "?i = e" if "e \<le> base" using that bl ie by simp
qed

lemma batch_tiles_Z_empty:
  "batch_tiles_Z base top' [0..<50] = [] \<Longrightarrow> top' \<le> base"
proof -
  have "[0..<50] = 0 # [1..<50]" by (simp add: upt_conv_Cons)
  then show "batch_tiles_Z base top' [0..<50] = [] \<Longrightarrow> top' \<le> base"
    by (simp add: Let_def split: if_splits)
qed

lemma batch_tiles_Z_length:
  "int (length (batch_tiles_Z base top' is)) \<le> int (length is)"
  by (induction "is") (simp_all add: Let_def)

lemma Entries_batch_Z_contig:
  assumes b: "Entries_batch_Z w c tree st = (r, st')"
    and s0: "0 \<le> s0" "s0 \<le> tree_N tree" and inv: "head_inv tree s0 st"
  shows "case r of
      Inr top' \<Rightarrow>
        top' = emitEnd (tree_N tree) s0 \<and>
        (if it_start st' = top'
         then map fst (it_yielded st') = [s0..emitEnd (tree_N tree) s0 - 1]
         else head_inv tree s0 st')
    | Inl ex \<Rightarrow>
        (ex = Returns None \<and> map fst (it_yielded st') = [s0..emitEnd (tree_N tree) s0 - 1]) \<or>
        (\<exists>p. p \<le> emitEnd (tree_N tree) s0 \<and> ends_at w s0 st' ex p)"
proof -
  let ?e = "emitEnd (tree_N tree) s0"
  let ?base = "quot (it_start st) TileWidth * TileWidth"
  let ?tiles = "batch_tiles_Z ?base (batch_top_Z tree ?base) [0..<50]"
  let ?st1 = "st\<lparr>it_polls := Suc (it_polls st)\<rparr>"
  note hf = head_facts [OF s0 inv]
  have tw: "0 < TileWidth" by (rule TileWidth_pos)
  from inv have y: "map fst (it_yielded st) = [s0..it_start st - 1]" by (simp add: head_inv_def)
  from hf(4) have mx: "max s0 (it_start st) = it_start st" by simp
  have here: "\<exists>p. p \<le> ?e \<and> ends_at w s0 st' ex p"
    if "ex \<noteq> Returns None" "failed_at ex (it_start st) (it_start st')"
      "it_yielded st' = it_yielded st" for ex
  proof -
    from that y mx have "ends_at w s0 st' ex (it_start st)" by (simp add: ends_at_def)
    with hf(5) show ?thesis by (intro exI [of _ "it_start st"]) simp
  qed
  from b show ?thesis
  proof (cases rule: Entries_batch_Z_cases)
    case (ctx e)
    have "\<exists>p. p \<le> ?e \<and> ends_at w s0 st' (Returns (Some (ContextDone e))) p"
      by (rule here) (simp_all add: failed_at_def ctx(2))
    with ctx(1) show ?thesis by simp
  next
    case empty
    from batch_tiles_Z_empty [OF empty(1)] hf(6) have "?e \<le> ?base" by simp
    from hf(9) [OF this] y empty(3) have "map fst (it_yielded st') = [s0..?e - 1]" by simp
    with empty(2) show ?thesis by simp
  next
    case (tileread e s1)
    have "\<exists>p. p \<le> ?e \<and> ends_at w s0 st' (Returns (Some (TileReadFailed e))) p"
      by (rule here) (simp_all add: failed_at_def tileread(3))
    with tileread(2) show ?thesis by simp
  next
    case (hashread e tdata s1 s2)
    have "\<exists>p. p \<le> ?e \<and> ends_at w s0 st' (Returns (Some (HashReadFailed e))) p"
      by (rule here) (simp_all add: failed_at_def hashread(4))
    with hashread(3) show ?thesis by simp
  next
    case (inner ex tdata s1 hashes s2)
    have cons: "consecutive ?base ?e (map snd (enumerate 0 ?tiles))"
      using batch_tiles_Z_consecutive [OF hf(1), of 0 "batch_top_Z tree ?base" 50]
      by (simp add: hf(6))
    have sk: "it_start (?st1\<lparr>it_src := s2\<rparr>) = s0 \<or>
        (s0 \<le> it_start (?st1\<lparr>it_src := s2\<rparr>) \<and> it_start (?st1\<lparr>it_src := s2\<rparr>) \<le> ?base)"
      using hf(7) by simp
    have yy: "map fst (it_yielded (?st1\<lparr>it_src := s2\<rparr>)) = [s0..max s0 ?base - 1]"
      using hf(8) by simp
    from tiles_loop_Z_contig [OF inner(4) cons sk yy hf(3) emitEnd_ge [OF s0(2)]]
    have "\<exists>p. p \<le> ?e \<and> ends_at w s0 st' ex p" by simp
    with inner(5) show ?thesis by simp
  next
    case (saved tdata s1 hashes s2 st2)
    have cons: "consecutive ?base ?e (map snd (enumerate 0 ?tiles))"
      using batch_tiles_Z_consecutive [OF hf(1), of 0 "batch_top_Z tree ?base" 50]
      by (simp add: hf(6))
    have sk: "it_start (?st1\<lparr>it_src := s2\<rparr>) = s0 \<or>
        (s0 \<le> it_start (?st1\<lparr>it_src := s2\<rparr>) \<and> it_start (?st1\<lparr>it_src := s2\<rparr>) \<le> ?base)"
      using hf(7) by simp
    have yy: "map fst (it_yielded (?st1\<lparr>it_src := s2\<rparr>)) = [s0..max s0 ?base - 1]"
      using hf(8) by simp
    from saved(1) have ne: "enumerate 0 ?tiles \<noteq> []" by (cases ?tiles) simp_all
    from tiles_loop_Z_contig [OF saved(4) cons sk yy hf(3) emitEnd_ge [OF s0(2)],
        unfolded sum.case, rule_format, OF ne]
    have a1: "it_start st2 = min (?base + int (length (enumerate 0 ?tiles)) * TileWidth) ?e"
      and a2: "map fst (it_yielded st2) = [s0..it_start st2 - 1]"
      and a3: "s0 \<le> it_start st2" by blast+
    from saved(6) have e1: "it_start st' = it_start st2" "it_yielded st' = it_yielded st2"
      by simp_all
    have top: "batch_top_Z tree ?base = ?e" by (rule hf(6))
    have "if it_start st' = ?e then map fst (it_yielded st') = [s0..?e - 1]
          else head_inv tree s0 st'"
    proof (cases "it_start st' = ?e")
      case True
      with a2 e1 show ?thesis by simp
    next
      case False
      let ?k = "int (length (enumerate 0 ?tiles))"
      from saved(1) have k1: "1 \<le> ?k" by (cases ?tiles) simp_all
      from False e1 a1 have v: "it_start st' = ?base + ?k * TileWidth"
        and lt: "?base + ?k * TileWidth < ?e" by (simp_all add: min_def split: if_splits)
      from k1 tw have kk: "TileWidth \<le> ?k * TileWidth" by simp
      have sm: "s0 < tree_N tree div TileWidth * TileWidth"
      proof (rule ccontr)
        assume "\<not> s0 < tree_N tree div TileWidth * TileWidth"
        then have "tree_N tree div TileWidth * TileWidth \<le> s0" by simp
        from hf(10) [OF this] lt kk show False by simp
      qed
      from hf(11) [OF sm] lt v have "it_start st' < tree_N tree div TileWidth * TileWidth"
        by simp
      moreover from hf(1) v have "TileWidth dvd it_start st'" by simp
      moreover from hf(3) kk v have "s0 < it_start st'" by simp
      ultimately have "head_inv tree s0 st'" using a2 e1 by (simp add: head_inv_def)
      with False show ?thesis by simp
    qed
    with saved(5) top show ?thesis by simp
  qed
qed


lemma Entries_loop_Z_contig:
  assumes s0: "0 \<le> s0" "s0 \<le> tree_N tree" and inv: "head_inv tree s0 st"
    and l: "Entries_loop_Z w c tree st = (ex, st')"
  shows "(ex = Returns None \<and> map fst (it_yielded st') = [s0..emitEnd (tree_N tree) s0 - 1]) \<or>
         (\<exists>p. p \<le> emitEnd (tree_N tree) s0 \<and> ends_at w s0 st' ex p)"
proof (rule Entries_loop_Z_rule [where I = "head_inv tree s0" and
      J = "\<lambda>ex st'. (ex = Returns None \<and>
             map fst (it_yielded st') = [s0..emitEnd (tree_N tree) s0 - 1]) \<or>
           (\<exists>p. p \<le> emitEnd (tree_N tree) s0 \<and> ends_at w s0 st' ex p)", OF _ inv l])
  fix st1 r st2
  assume i: "head_inv tree s0 st1" and b: "Entries_batch_Z w c tree st1 = (r, st2)"
  note bc = Entries_batch_Z_contig [OF b s0 i]
  show "case r of
      Inl ex \<Rightarrow> (ex = Returns None \<and>
             map fst (it_yielded st2) = [s0..emitEnd (tree_N tree) s0 - 1]) \<or>
           (\<exists>p. p \<le> emitEnd (tree_N tree) s0 \<and> ends_at w s0 st2 ex p)
    | Inr top' \<Rightarrow>
        if it_start st2 = top'
        then (Returns None = Returns None \<and>
             map fst (it_yielded st2) = [s0..emitEnd (tree_N tree) s0 - 1]) \<or>
           (\<exists>p. p \<le> emitEnd (tree_N tree) s0 \<and> ends_at w s0 st2 (Returns None) p)
        else head_inv tree s0 st2"
  proof (cases r)
    case (Inl ex)
    with bc show ?thesis by simp
  next
    case (Inr top')
    with bc show ?thesis by (simp split: if_splits)
  qed
qed

text \<open>
  A run over the integers from \<open>start\<close>: the pairs yielded are those of the indexes from
  \<open>start\<close> to some \<open>p - 1\<close> with \<open>p\<close> at most \<open>emitEnd\<close>; they go up to \<open>emitEnd - 1\<close> when the
  run returns without an error, unless the consumer has stopped it; and \<open>p\<close> is where a
  failure was met.
\<close>

lemma Entries_Z_contig:
  assumes s0: "0 \<le> start" "start \<le> tree_N tree"
    and r: "Entries_Z w c tree start = (ex, c', st)"
  shows "\<exists>p. start \<le> p \<and> p \<le> emitEnd (tree_N tree) start \<and>
           map fst (it_yielded st) = [start..p - 1] \<and>
           (ex = Returns None \<longrightarrow> p = emitEnd (tree_N tree) start \<or> \<not> yield w (it_yielded st)) \<and>
           (\<forall>err. ex = Returns (Some err) \<longrightarrow> failed_at ex p (it_start st) \<or>
               (start = p \<and> (\<exists>q. q < start \<and> failed_at ex q (it_start st))))"
proof -
  let ?st = "\<lparr>it_src = c_tr c, it_polls = 0, it_start = start, it_yielded = [], it_cuts = []\<rparr>"
  let ?e = "emitEnd (tree_N tree) start"
  from r have l: "Entries_loop_Z w (Entries_call c) tree ?st = (ex, st)"
    by (simp add: Entries_Z_def split: prod.splits)
  have inv: "head_inv tree start ?st" by (simp add: head_inv_def)
  have se: "start \<le> ?e" using s0(2) by (rule emitEnd_ge)
  from Entries_loop_Z_contig [OF s0 inv l]
  show ?thesis
  proof
    assume a: "ex = Returns None \<and> map fst (it_yielded st) = [start..?e - 1]"
    with se show ?thesis by (intro exI [of _ ?e]) simp
  next
    assume "\<exists>p. p \<le> ?e \<and> ends_at w start st ex p"
    then obtain p where p: "p \<le> ?e" and y: "map fst (it_yielded st) = [start..max start p - 1]"
      and f: "if ex = Returns None then \<not> yield w (it_yielded st)
              else failed_at ex p (it_start st)"
      by (auto simp: ends_at_def)
    have "start \<le> max start p" by simp
    moreover from p se have "max start p \<le> ?e" by simp
    moreover have "ex = Returns None \<longrightarrow> max start p = ?e \<or> \<not> yield w (it_yielded st)"
      using f by simp
    moreover have "\<forall>err. ex = Returns (Some err) \<longrightarrow> failed_at ex (max start p) (it_start st) \<or>
               (start = max start p \<and> (\<exists>q. q < start \<and> failed_at ex q (it_start st)))"
    proof (intro allI impI)
      fix err assume e: "ex = Returns (Some err)"
      with f have fa: "failed_at ex p (it_start st)" by simp
      show "failed_at ex (max start p) (it_start st) \<or>
               (start = max start p \<and> (\<exists>q. q < start \<and> failed_at ex q (it_start st)))"
      proof (cases "start \<le> p")
        case True
        then have "max start p = p" by simp
        with fa show ?thesis by simp
      next
        case False
        then have "start = max start p" "p < start" by simp_all
        with fa show ?thesis by blast
      qed
    qed
    ultimately show ?thesis using y by (intro exI [of _ "max start p"]) simp
  qed
qed


text \<open>A run that has ended after \<open>n\<close> turns is the same with more turns allowed.\<close>

lemma Entries_loop_mono:
  "Entries_loop w c tree n st = (Some ex, st') \<Longrightarrow> n \<le> m \<Longrightarrow>
     Entries_loop w c tree m st = (Some ex, st')"
proof (induction n arbitrary: m st)
  case 0
  then show ?case by simp
next
  case (Suc n)
  from Suc.prems(2) obtain m' where m: "m = Suc m'" "n \<le> m'" by (cases m) simp_all
  obtain r st1 where b: "Entries_batch w c tree st = (r, st1)"
    by (cases "Entries_batch w c tree st")
  show ?case
  proof (cases r)
    case (Inl e)
    with Suc.prems(1) b show ?thesis unfolding m(1) by simp
  next
    case (Inr top')
    show ?thesis
    proof (cases "it_start st1 = top'")
      case True
      with Suc.prems(1) b Inr show ?thesis unfolding m(1) by simp
    next
      case False
      with Suc.prems(1) b Inr have "Entries_loop w c tree n st1 = (Some ex, st')" by simp
      from Suc.IH [OF this m(2)] b Inr False show ?thesis unfolding m(1) by simp
    qed
  qed
qed

lemma Entries_mono:
  assumes "fst (Entries w c tree start n) = Some ex" and "n \<le> m"
  shows "Entries w c tree start m = Entries w c tree start n"
proof -
  let ?st = "\<lparr>it_src = c_tr c, it_polls = 0, it_start = start, it_yielded = [], it_cuts = []\<rparr>"
  obtain r st' where l: "Entries_loop w (Entries_call c) tree n ?st = (r, st')"
    by (cases "Entries_loop w (Entries_call c) tree n ?st")
  with assms(1) have "r = Some ex"
    by (simp add: Entries_def Entries_iterate_def Entries_call_def)
  with l have "Entries_loop w (Entries_call c) tree n ?st = (Some ex, st')" by simp
  from Entries_loop_mono [OF this assms(2)] l \<open>r = Some ex\<close> show ?thesis
    by (simp add: Entries_def Entries_iterate_def Entries_call_def)
qed

subsection \<open>The range of a run\<close>

text \<open>
  C2. For a tree of \<open>N\<close> entries, \<open>N\<close> below \<open>2^63 - 51 * TileWidth\<close>, and a start with
  \<open>0 \<le> start \<le> N\<close>, a run of \<^verbatim>\<open>Client.Entries\<close> ends (after a number of turns of its outer
  loop), and the indexes of the pairs it has yielded are, in this order,
  \<open>start, start + 1, ..., p - 1\<close> for some \<open>p\<close> between \<open>start\<close> and \<open>emitEnd\<close>; when the run
  has returned without an error and the consumer has not stopped the iteration, \<open>p\<close> is
  \<open>emitEnd\<close>, so that exactly the entries from \<open>start\<close> to \<open>emitEnd - 1\<close> are yielded, and
  none when \<open>start = emitEnd\<close>. \<open>emitEnd\<close> is the largest multiple of the tile width that is
  at most \<open>N\<close>, unless \<open>start\<close> lies at or beyond that bound, in which case it is \<open>N\<close>.
\<close>

theorem Entries_yields_range:
  assumes "0 \<le> start" and "start \<le> tree_N tree" and "tree_N tree < 2 ^ 63 - 51 * TileWidth"
  shows "\<exists>k. \<forall>n\<ge>k. \<exists>ex c' st p.
     Entries w c tree start n = (Some ex, c', st) \<and>
     start \<le> p \<and> p \<le> emitEnd (tree_N tree) start \<and>
     map fst (it_yielded st) = [start..p - 1] \<and>
     (ex = Returns None \<and> (\<forall>ys. yield w ys) \<longrightarrow>
        map fst (it_yielded st) = [start..emitEnd (tree_N tree) start - 1]) \<and>
     (start = emitEnd (tree_N tree) start \<longrightarrow> it_yielded st = [])"
proof -
  from assms(3) have b: "tree_N tree + 51 * TileWidth < 2 ^ 63" by simp
  obtain ex c' st where z: "Entries_Z w c tree start = (ex, c', st)"
    by (cases "Entries_Z w c tree start") auto
  from Entries_Z_contig [OF assms(1,2) z] obtain p where
    p: "start \<le> p" "p \<le> emitEnd (tree_N tree) start"
      "map fst (it_yielded st) = [start..p - 1]"
      "ex = Returns None \<longrightarrow> p = emitEnd (tree_N tree) start \<or> \<not> yield w (it_yielded st)"
    by blast
  from p(4) p(3) have full: "ex = Returns None \<and> (\<forall>ys. yield w ys) \<longrightarrow>
        map fst (it_yielded st) = [start..emitEnd (tree_N tree) start - 1]" by auto
  have none: "start = emitEnd (tree_N tree) start \<longrightarrow> it_yielded st = []"
  proof
    assume "start = emitEnd (tree_N tree) start"
    with p(1,2) have "p = start" by simp
    with p(3) have "map fst (it_yielded st) = []" by simp
    then show "it_yielded st = []" by simp
  qed
  from Entries_eq [OF assms(1,2) b, of w c] obtain k where
    k: "\<forall>n\<ge>k. Entries w c tree start n =
     (Some (fst (Entries_Z w c tree start)), snd (Entries_Z w c tree start))" by blast
  have "\<forall>n\<ge>k. \<exists>ex c' st p.
     Entries w c tree start n = (Some ex, c', st) \<and>
     start \<le> p \<and> p \<le> emitEnd (tree_N tree) start \<and>
     map fst (it_yielded st) = [start..p - 1] \<and>
     (ex = Returns None \<and> (\<forall>ys. yield w ys) \<longrightarrow>
        map fst (it_yielded st) = [start..emitEnd (tree_N tree) start - 1]) \<and>
     (start = emitEnd (tree_N tree) start \<longrightarrow> it_yielded st = [])"
  proof (intro allI impI)
    fix n assume "k \<le> n"
    with k z have e: "Entries w c tree start n = (Some ex, c', st)" by simp
    from e p(1,2,3) full none show "\<exists>ex c' st p.
     Entries w c tree start n = (Some ex, c', st) \<and>
     start \<le> p \<and> p \<le> emitEnd (tree_N tree) start \<and>
     map fst (it_yielded st) = [start..p - 1] \<and>
     (ex = Returns None \<and> (\<forall>ys. yield w ys) \<longrightarrow>
        map fst (it_yielded st) = [start..emitEnd (tree_N tree) start - 1]) \<and>
     (start = emitEnd (tree_N tree) start \<longrightarrow> it_yielded st = [])"
      by (intro exI [of _ ex] exI [of _ c'] exI [of _ st] exI [of _ p] conjI)
  qed
  then show ?thesis by blast
qed

theorem Entries_yields_range_witness:
  "emitEnd 3 1 = 3 \<and>
   (\<exists>n. fst (Entries example_world example_client \<lparr>tree_N = 3, tree_Hash = []\<rparr> 1 n)
          = Some (Returns None) \<and>
        it_yielded (snd (snd (Entries example_world example_client
          \<lparr>tree_N = 3, tree_Hash = []\<rparr> 1 n))) = [(1, [98, 10]), (2, [99, 10])])"
proof -
  let ?t = "\<lparr>tree_N = 3, tree_Hash = []\<rparr> :: bytes Tree"
  let ?run = "Entries example_world example_client ?t 1"
  have ee: "emitEnd 3 1 = 3" by (simp add: emitEnd_def TileWidth_def)
  have y: "\<forall>ys. yield example_world ys" by (simp add: example_world_def)
  have "(0 :: int) \<le> 1" "1 \<le> tree_N ?t" "tree_N ?t < 2 ^ 63 - 51 * TileWidth"
    by (simp_all add: TileWidth_def)
  from Entries_yields_range [OF this, of example_world example_client] obtain k where
    k: "\<forall>n\<ge>k. \<exists>ex c' st p. ?run n = (Some ex, c', st) \<and>
     1 \<le> p \<and> p \<le> emitEnd (tree_N ?t) 1 \<and>
     map fst (it_yielded st) = [1..p - 1] \<and>
     (ex = Returns None \<and> (\<forall>ys. yield example_world ys) \<longrightarrow>
        map fst (it_yielded st) = [1..emitEnd (tree_N ?t) 1 - 1]) \<and>
     (1 = emitEnd (tree_N ?t) 1 \<longrightarrow> it_yielded st = [])" by blast
  have v: "fst (?run 2) = Some (Returns None)" by code_simp
  have w: "it_yielded (snd (snd (?run 2))) = [(1, [98, 10]), (2, [99, 10])]" by code_simp
  have m: "?run (max k 2) = ?run 2" using v by (rule Entries_mono) simp
  from k [rule_format, of "max k 2"] obtain ex c' st where
    r: "?run (max k 2) = (Some ex, c', st)" and
    f: "ex = Returns None \<and> (\<forall>ys. yield example_world ys) \<longrightarrow>
        map fst (it_yielded st) = [1..emitEnd (tree_N ?t) 1 - 1]" by auto
  from r m v have "ex = Returns None" by simp
  with f y have "map fst (it_yielded st) = [1..emitEnd (tree_N ?t) 1 - 1]" by simp
  with r m w ee have "fst (?run (max k 2)) = Some (Returns None) \<and>
      it_yielded (snd (snd (?run (max k 2)))) = [(1, [98, 10]), (2, [99, 10])]"
    using v by simp
  then have "\<exists>n. fst (?run n) = Some (Returns None) \<and>
      it_yielded (snd (snd (?run n))) = [(1, [98, 10]), (2, [99, 10])]" by (rule exI)
  with ee show ?thesis by simp
qed

end
